theory Spec2Isabelle
  imports Main "HOL-Library.Word" "HOL-Library.AList"
begin

section \<open>Data model of velox/exec/Task.cpp\<close>

text \<open>
  A data member \<^verbatim>\<open>x_\<close> of the class \<^verbatim>\<open>Task\<close> is the field \<open>x\<close> of the task record
  (a name cannot end in an underscore here); \<^verbatim>\<open>state_\<close> is \<open>taskState\<close>, since
  \<open>state\<close> is the accessor of a driver's thread state.

  The development embeds the split feeding, barrier, pause/resume, terminate and memory
  reclaim code of \<^verbatim>\<open>velox/exec/Task.cpp\<close>. Every function that runs under
  \<^verbatim>\<open>mutex\<close> is a function on the task record; what a function does after it has
  released the lock (fulfilling promises, closing drivers, notifying listeners) is
  returned as a list of events in program order. A failed \<^verbatim>\<open>VELOX_CHECK\<close> is
  an error value, returned together with the task as the exception leaves it.
\<close>

type_synonym PlanNodeId = string

text \<open>
  A \<^verbatim>\<open>ContinuePromise\<close> is identified by a number:
  \<^verbatim>\<open>makeVeloxContinuePromiseContract\<close> hands out the next unused one (field
  \<open>promiseCounter\<close> of the task), and the future of a contract carries the number of
  its promise.
\<close>

type_synonym promise = nat

type_synonym exception_ptr = "string option"

datatype error =
    VeloxRuntimeError string
  | VeloxUserError string
  | NullDereference
  | Rethrown string

datatype TaskState = kRunning | kFinished | kCanceled | kAborted | kFailed

datatype StopReason =
  kNone | kPause | kTerminate | kAlreadyTerminated | kYield | kBlock | kAtEnd | kAlreadyOnThread

datatype BlockingReason = kNotBlocked | kWaitForSplit

datatype ExecutionMode = kSerial | kParallel

datatype event =
    SetValue promise
  | PreloadCall nat
  | OnAddSplit PlanNodeId
  | AddRemoteTaskId PlanNodeId string
  | NoMoreRemoteTasks PlanNodeId
  | Enqueue nat
  | CloseByTask nat
  | OnTaskCompletion
  | OnError exception_ptr
  | RemoveFromOutputBufferManager
  | CloseExchangeClients
  | CancelJoinBridges
  | ClosePreloadingSplits
  | ResumeCall
  | LogWarning

text \<open>
  Modelled from the spec: \<^verbatim>\<open>Split.h\<close> and \<^verbatim>\<open>ConnectorSplit.h\<close> are not among
  the sources. A connector split is the shared object a \<^verbatim>\<open>Split\<close> points to:
  \<open>addr\<close> is the address of that object, \<open>dataSource\<close> is \<open>None\<close> for a null
  pointer and \<open>Some b\<close> for a preloading source whose \<^verbatim>\<open>hasValue()\<close> is \<open>b\<close>,
  \<open>remoteTaskId\<close> is set when the object is a \<^verbatim>\<open>RemoteConnectorSplit\<close>.
  A split holds the three fields \<^verbatim>\<open>Task.cpp\<close> reads; \<^verbatim>\<open>groupId\<close> is a 32-bit
  value whose all-ones pattern (\<open>-1\<close>, \<^verbatim>\<open>kUngroupedGroupId\<close>) means no group.

  Several splits, in one queue or in different stores, can point to one connector
  split object. A split of the model holds the address of the object together with the
  fields of the object as they are; splits with the same address are the same object.
  \<^verbatim>\<open>Task.cpp\<close> writes a connector split at one place only, where the preload
  callback sets the data source; that write goes to every split of that address in the
  queues of the task (\<open>setDataSource\<close>, \<open>writeDataSources\<close> below).
\<close>

record ConnectorSplit =
  addr :: nat
  splitWeight :: int
  dataSource :: "bool option"
  remoteTaskId :: "string option"

record Split =
  connectorSplit :: "ConnectorSplit option"
  groupId :: "32 word"
  barrier :: bool

definition kUngroupedGroupId :: "32 word" where
  "kUngroupedGroupId = - 1"

definition hasConnectorSplit :: "Split \<Rightarrow> bool" where
  "hasConnectorSplit s = (connectorSplit s \<noteq> None)"

definition hasGroup :: "Split \<Rightarrow> bool" where
  "hasGroup s = (groupId s \<noteq> kUngroupedGroupId)"

definition isBarrier :: "Split \<Rightarrow> bool" where
  "isBarrier s = barrier s"

definition createBarrier :: Split where
  "createBarrier = \<lparr>connectorSplit = None, groupId = kUngroupedGroupId, barrier = True\<rparr>"

text \<open>A default-constructed split: no connector split, no group, no barrier.\<close>

definition emptySplit :: Split where
  "emptySplit = \<lparr>connectorSplit = None, groupId = kUngroupedGroupId, barrier = False\<rparr>"

text \<open>
  \<^verbatim>\<open>SplitsStore\<close> and \<^verbatim>\<open>SplitsState\<close> (declared in \<^verbatim>\<open>TaskStructs.h\<close>): the field
  order of the store is the one of the initialiser \<^verbatim>\<open>SplitsStore{{}, true, {}}\<close>.
  The per-node flag is named \<open>nodeNoMoreSplits\<close> to keep it apart from the flag of a
  store. The maps are association lists; \<^verbatim>\<open>operator[]\<close> on a missing key gives a
  default-constructed entry.
\<close>

record SplitsStore =
  splits :: "Split list"
  noMoreSplits :: bool
  splitPromises :: "promise list"

record SplitsState =
  sourceIsTableScan :: bool
  groupSplitsStores :: "(32 word \<times> SplitsStore) list"
  nodeNoMoreSplits :: bool
  maxSequenceId :: int

definition emptyStore :: SplitsStore where
  "emptyStore = \<lparr>splits = [], noMoreSplits = False, splitPromises = []\<rparr>"

definition storeAt :: "(32 word \<times> SplitsStore) list \<Rightarrow> 32 word \<Rightarrow> SplitsStore" where
  "storeAt stores g = (case map_of stores g of None \<Rightarrow> emptyStore | Some s \<Rightarrow> s)"

record TaskStats =
  numTotalSplits :: int
  numQueuedSplits :: int
  numRunningSplits :: int
  numFinishedSplits :: int
  numQueuedTableScanSplits :: int
  numRunningTableScanSplits :: int
  queuedTableScanSplitWeights :: int
  runningTableScanSplitWeights :: int
  firstSplitStartTimeMs :: nat
  lastSplitStartTimeMs :: nat
  executionEndTimeMs :: nat
  terminationTimeMs :: nat
  endTimeMs :: nat
  numBarriers :: nat
  completedSplitGroups :: "32 word list"
  memoryReclaimCount :: nat
  memoryReclaimMs :: nat

text \<open>
  Modelled from the spec: \<^verbatim>\<open>Driver.h\<close> is not among the sources. The thread state
  has the flags the spec lists (on-thread, terminated, suspension count, enqueued,
  blocking future); \<open>onThread\<close> is what \<^verbatim>\<open>setThread\<close> sets and
  \<^verbatim>\<open>clearThread\<close> clears, \<open>inBarrier\<close> is what \<^verbatim>\<open>Driver::startBarrier\<close> sets.
  The two pause times are unsigned 64-bit counters. The field \<open>onError\<close> of the task
  says whether the callback \<^verbatim>\<open>onError_\<close> is set, \<open>isExecutorSupplied\<close> is
  \<^verbatim>\<open>queryCtx()->isExecutorSupplied()\<close>, \<open>cancellationRequested\<close> is the state of
  \<^verbatim>\<open>cancellationSource_\<close>, and \<open>numFinishedOutputDriversUngrouped\<close> is
  \<^verbatim>\<open>splitGroupStates_[kUngroupedGroupId].numFinishedOutputDrivers\<close>.
\<close>

record ThreadState =
  onThread :: bool
  isTerminated :: bool
  isEnqueued :: bool
  hasBlockingFuture :: bool
  numSuspensions :: nat
  endExecTimeMs :: "64 word"
  totalPauseTimeMs :: "64 word"

record Driver =
  driverId :: nat
  state :: ThreadState
  inBarrier :: bool

definition suspended :: "ThreadState \<Rightarrow> bool" where
  "suspended s = (0 < numSuspensions s)"

record DriverFactory =
  numDrivers :: "32 word"
  outputDriver :: bool

record Task =
  taskState :: TaskState
  exception :: exception_ptr
  mode :: ExecutionMode
  firstNodeNotSupportingBarrier :: "string option"
  isGroupedExecution :: bool
  leafPlanNodeIds :: "PlanNodeId list"
  driverFactories :: "DriverFactory list"
  createDriversFor :: "32 word \<Rightarrow> Driver option list"
  isExecutorSupplied :: bool
  onError :: bool
  splitsStates :: "(PlanNodeId \<times> SplitsState) list"
  exchangeClientByPlanNode :: "PlanNodeId list"
  taskStats :: TaskStats
  preloadingSplits :: "nat set"
  seenSplitGroups :: "32 word list"
  queuedSplitGroups :: "32 word list"
  numRunningSplitGroups :: "32 word"
  concurrentSplitGroups :: "32 word"
  numDriversPerSplitGroup :: "32 word"
  numDriversUngrouped :: "32 word"
  drivers :: "Driver option list"
  numRunningDrivers :: "32 word"
  numFinishedDrivers :: "32 word"
  numTotalDrivers :: "32 word"
  numFinishedOutputDriversUngrouped :: "32 word"
  numDriversInPartitionedOutput :: "32 word"
  partitionedOutputConsumed :: bool
  numThreads :: int
  pauseRequested :: bool
  terminateRequested :: bool
  cancellationRequested :: bool
  barrierRequested :: bool
  barrierStartUs :: nat
  numDriversUnderBarrier :: nat
  barrierFinishPromises :: "promise list"
  resumePromises :: "promise list"
  threadFinishPromises :: "promise list"
  taskCompletionPromises :: "promise list"
  stateChangePromises :: "promise list"
  promiseCounter :: nat

section \<open>Split feeding\<close>

definition isRunningLocked :: "Task \<Rightarrow> bool" where
  "isRunningLocked t = (taskState t = kRunning)"

definition getPlanNodeSplitsStateLocked :: "Task \<Rightarrow> PlanNodeId \<Rightarrow> error + SplitsState" where
  "getPlanNodeSplitsStateLocked t planNodeId =
     (case map_of (splitsStates t) planNodeId of
        Some splitsState \<Rightarrow> Inr splitsState
      | None \<Rightarrow> Inl (VeloxUserError
          ''Splits can be associated only with leaf plan nodes which require splits.''))"

definition ensureBarrierSupport :: "Task \<Rightarrow> error option" where
  "ensureBarrierSupport t =
     (if mode t \<noteq> kSerial
      then Some (VeloxRuntimeError ''Task doesn't support barriered execution.'')
      else if firstNodeNotSupportingBarrier t \<noteq> None
      then Some (VeloxRuntimeError ''Task doesn't support barriered execution. Name of the first node that doesn't support barriered execution'')
      else None)"

text \<open>
  \<^verbatim>\<open>addSplitToStoreLocked\<close>: the split goes to the back of the queue; when a
  waiter is registered, the last promise is taken out and handed to the caller.
\<close>

definition addSplitToStoreLocked :: "SplitsStore \<Rightarrow> Split \<Rightarrow> promise option \<times> SplitsStore" where
  "addSplitToStoreLocked splitsStore split =
     (let store1 = splitsStore\<lparr>splits := splits splitsStore @ [split]\<rparr>
      in if splitPromises store1 = [] then (None, store1)
         else (Some (last (splitPromises store1)),
               store1\<lparr>splitPromises := butlast (splitPromises store1)\<rparr>))"

text \<open>
  Writing a store back: \<open>splitsState.groupSplitsStores[g]\<close> is a reference into the
  state of plan node \<open>planNodeId\<close>, itself a reference into \<open>splitsStates\<close>.
\<close>

definition putStore :: "Task \<Rightarrow> PlanNodeId \<Rightarrow> SplitsState \<Rightarrow> 32 word \<Rightarrow> SplitsStore \<Rightarrow> Task" where
  "putStore t planNodeId splitsState g store =
     t\<lparr>splitsStates := AList.update planNodeId
          (splitsState\<lparr>groupSplitsStores := AList.update g store (groupSplitsStores splitsState)\<rparr>)
          (splitsStates t)\<rparr>"

text \<open>
  Modelled from the spec: \<^verbatim>\<open>Driver::enqueue\<close> is not among the sources; it marks
  the driver enqueued (the scheduling on the executor is outside the task).
\<close>

definition enqueue :: "Driver \<Rightarrow> Driver" where
  "enqueue d = d\<lparr>state := (state d)\<lparr>isEnqueued := True\<rparr>\<rparr>"

text \<open>
  \<^verbatim>\<open>ensureSplitGroupsAreBeingProcessedLocked\<close>. The drivers of a split group come
  from the driver factories, which are not among the sources: they are the field
  \<open>createDriversFor\<close> of the task (the result of \<^verbatim>\<open>createDriversLocked\<close>, which
  also counts the group as running). The join bridges and local exchanges of
  \<^verbatim>\<open>createSplitGroupStateLocked\<close> are not part of the model. A new driver is moved
  into the first vacant slot at or after \<open>i\<close>; running past the end of \<open>drivers\<close>
  is an error.
\<close>

function findVacant :: "Driver option list \<Rightarrow> nat \<Rightarrow> nat option" where
  "findVacant ds i =
     (if i < length ds
      then (if ds ! i \<noteq> None then findVacant ds (Suc i) else Some i)
      else None)"
  by pat_completeness auto
termination
  by (relation "measure (\<lambda>(ds, i). length ds - i)") auto

declare findVacant.simps [simp del]

fun placeDrivers :: "Driver option list \<Rightarrow> nat \<Rightarrow> Task \<Rightarrow> error option \<times> Task" where
  "placeDrivers [] i t = (None, t)"
| "placeDrivers (newDriverPtr # rest) i t =
     (case findVacant (drivers t) i of
        None \<Rightarrow> (Some (VeloxRuntimeError ''i < drivers.size()''), t)
      | Some j \<Rightarrow>
          (case newDriverPtr of
             None \<Rightarrow> placeDrivers rest j (t\<lparr>drivers := (drivers t)[j := None]\<rparr>)
           | Some d \<Rightarrow> placeDrivers rest j
               (t\<lparr>drivers := (drivers t)[j := Some (enqueue d)],
                  numRunningDrivers := numRunningDrivers t + 1\<rparr>)))"

fun processQueuedSplitGroups :: "32 word list \<Rightarrow> Task \<Rightarrow> error option \<times> Task" where
  "processQueuedSplitGroups [] t = (None, t)"
| "processQueuedSplitGroups (splitGroupId # queue) t =
     (if numRunningSplitGroups t < concurrentSplitGroups t
      then (case placeDrivers (createDriversFor t splitGroupId) 0
                   (t\<lparr>queuedSplitGroups := queue,
                      numRunningSplitGroups := numRunningSplitGroups t + 1\<rparr>) of
              (Some e, t') \<Rightarrow> (Some e, t')
            | (None, t') \<Rightarrow> processQueuedSplitGroups queue t')
      else (None, t))"

definition ensureSplitGroupsAreBeingProcessedLocked :: "Task \<Rightarrow> error option \<times> Task" where
  "ensureSplitGroupsAreBeingProcessedLocked t =
     (if \<not> isRunningLocked t \<or> numDriversPerSplitGroup t = 0 then (None, t)
      else processQueuedSplitGroups (queuedSplitGroups t) t)"

definition addToGroupStore ::
  "Task \<Rightarrow> PlanNodeId \<Rightarrow> SplitsState \<Rightarrow> 32 word \<Rightarrow> Split \<Rightarrow> (error + promise option) \<times> Task" where
  "addToGroupStore t planNodeId splitsState g split =
     (case addSplitToStoreLocked (storeAt (groupSplitsStores splitsState) g) split of
        (promise, store) \<Rightarrow> (Inr promise, putStore t planNodeId splitsState g store))"

definition countSplit :: "SplitsState \<Rightarrow> Split \<Rightarrow> TaskStats \<Rightarrow> TaskStats" where
  "countSplit splitsState split stats =
     (case connectorSplit split of
        Some cs \<Rightarrow>
          (if sourceIsTableScan splitsState
           then stats\<lparr>numQueuedTableScanSplits := numQueuedTableScanSplits stats + 1,
                      queuedTableScanSplitWeights := queuedTableScanSplitWeights stats + splitWeight cs\<rparr>
           else stats)
      | None \<Rightarrow> stats)"

text \<open>
  \<^verbatim>\<open>addSplitLocked\<close>. \<open>splitsState\<close> is the state of plan node \<open>planNodeId\<close> that
  the caller looked up. The checks of the source are kept in their order: the counters
  \<open>numTotalSplits\<close> and \<open>numQueuedSplits\<close> are already incremented when the check
  that the split has no data source fails.
\<close>

definition addSplitLocked ::
  "Task \<Rightarrow> PlanNodeId \<Rightarrow> SplitsState \<Rightarrow> Split \<Rightarrow> (error + promise option) \<times> Task" where
  "addSplitLocked t planNodeId splitsState split =
     (if isBarrier split then
        (case ensureBarrierSupport t of
           Some e \<Rightarrow> (Inl e, t)
         | None \<Rightarrow>
             if \<not> sourceIsTableScan splitsState
             then (Inl (VeloxRuntimeError ''splitsState.sourceIsTableScan''), t)
             else if nodeNoMoreSplits splitsState
             then (Inl (VeloxRuntimeError ''!splitsState.noMoreSplits''), t)
             else addToGroupStore t planNodeId splitsState kUngroupedGroupId split)
      else if barrierRequested t
      then (Inl (VeloxRuntimeError ''Can't add new split under barrier processing''), t)
      else
        (let t1 = t\<lparr>taskStats := (taskStats t)
                      \<lparr>numTotalSplits := numTotalSplits (taskStats t) + 1,
                       numQueuedSplits := numQueuedSplits (taskStats t) + 1\<rparr>\<rparr>
         in if (case connectorSplit split of Some cs \<Rightarrow> dataSource cs \<noteq> None | None \<Rightarrow> False)
            then (Inl (VeloxRuntimeError ''split.connectorSplit->dataSource is not null''), t1)
            else
              (let t2 = t1\<lparr>taskStats := countSplit splitsState split (taskStats t1)\<rparr>
               in if \<not> hasGroup split
                  then addToGroupStore t2 planNodeId splitsState kUngroupedGroupId split
                  else if groupId split \<notin> set (seenSplitGroups t2)
                  then (case ensureSplitGroupsAreBeingProcessedLocked
                               (t2\<lparr>seenSplitGroups := seenSplitGroups t2 @ [groupId split],
                                   queuedSplitGroups := queuedSplitGroups t2 @ [groupId split]\<rparr>) of
                          (Some e, t3) \<Rightarrow> (Inl e, t3)
                        | (None, t3) \<Rightarrow> addToGroupStore t3 planNodeId splitsState (groupId split) split)
                  else addToGroupStore t2 planNodeId splitsState (groupId split) split)))"

text \<open>
  \<^verbatim>\<open>addRemoteSplit\<close> runs when the task is no longer running: a remote split of a
  plan node with an exchange client is passed on to that client.
\<close>

definition addRemoteSplit :: "Task \<Rightarrow> PlanNodeId \<Rightarrow> Split \<Rightarrow> error + event list" where
  "addRemoteSplit t planNodeId split =
     (case connectorSplit split of
        None \<Rightarrow> Inr []
      | Some cs \<Rightarrow>
          if planNodeId \<in> set (exchangeClientByPlanNode t)
          then (case remoteTaskId cs of
                  None \<Rightarrow> Inl (VeloxRuntimeError ''Wrong type of split'')
                | Some taskId \<Rightarrow> Inr [AddRemoteTaskId planNodeId taskId])
          else Inr [])"

definition promiseEvents :: "promise option \<Rightarrow> event list" where
  "promiseEvents p = (case p of None \<Rightarrow> [] | Some q \<Rightarrow> [SetValue q])"

definition addSplitWithSequence ::
  "Task \<Rightarrow> PlanNodeId \<Rightarrow> Split \<Rightarrow> int \<Rightarrow> (error + bool) \<times> Task \<times> event list" where
  "addSplitWithSequence t planNodeId split sequenceId =
     (if isRunningLocked t then
        (case getPlanNodeSplitsStateLocked t planNodeId of
           Inl e \<Rightarrow> (Inl e, t, [])
         | Inr splitsState \<Rightarrow>
             if sequenceId > maxSequenceId splitsState
             then (case addSplitLocked t planNodeId splitsState split of
                     (Inl e, t') \<Rightarrow> (Inl e, t', [])
                   | (Inr promise, t') \<Rightarrow>
                       (Inr True, t', promiseEvents promise @ [OnAddSplit planNodeId]))
             else (Inr False, t, []))
      else (case addRemoteSplit t planNodeId split of
              Inl e \<Rightarrow> (Inl e, t, [])
            | Inr evs \<Rightarrow> (Inr False, t, evs)))"

definition addSplit ::
  "Task \<Rightarrow> PlanNodeId \<Rightarrow> Split \<Rightarrow> (error + unit) \<times> Task \<times> event list" where
  "addSplit t planNodeId split =
     (if isRunningLocked t then
        (case getPlanNodeSplitsStateLocked t planNodeId of
           Inl e \<Rightarrow> (Inl e, t, [])
         | Inr splitsState \<Rightarrow>
             (case addSplitLocked t planNodeId splitsState split of
                (Inl e, t') \<Rightarrow> (Inl e, t', [])
              | (Inr promise, t') \<Rightarrow>
                  (Inr (), t', promiseEvents promise @ [OnAddSplit planNodeId])))
      else (case addRemoteSplit t planNodeId split of
              Inl e \<Rightarrow> (Inl e, t, [])
            | Inr evs \<Rightarrow> (Inr (), t, evs)))"

definition setMaxSplitSequenceId :: "Task \<Rightarrow> PlanNodeId \<Rightarrow> int \<Rightarrow> error option \<times> Task" where
  "setMaxSplitSequenceId t planNodeId maxSeq =
     (if isRunningLocked t then
        (case getPlanNodeSplitsStateLocked t planNodeId of
           Inl e \<Rightarrow> (Some e, t)
         | Inr splitsState \<Rightarrow>
             (None, t\<lparr>splitsStates := AList.update planNodeId
                        (splitsState\<lparr>maxSequenceId := max (maxSequenceId splitsState) maxSeq\<rparr>)
                        (splitsStates t)\<rparr>))
      else (None, t))"

section \<open>Handing out splits\<close>

text \<open>
  Writing the data source of the connector split object at address \<open>a\<close>: the write
  is seen through every split that points to the object, in the queue at hand and in
  all the stores of the task.
\<close>

definition setDataSource :: "nat \<Rightarrow> bool option \<Rightarrow> Split \<Rightarrow> Split" where
  "setDataSource a v s =
     (case connectorSplit s of
        None \<Rightarrow> s
      | Some cs \<Rightarrow> if addr cs = a then s\<lparr>connectorSplit := Some (cs\<lparr>dataSource := v\<rparr>)\<rparr> else s)"

definition writeDataSource :: "nat \<times> bool option \<Rightarrow> Task \<Rightarrow> Task" where
  "writeDataSource w t =
     t\<lparr>splitsStates :=
         map (\<lambda>(planNodeId, splitsState).
                (planNodeId,
                 splitsState\<lparr>groupSplitsStores :=
                   map (\<lambda>(g, store).
                          (g, store\<lparr>splits := map (setDataSource (fst w) (snd w)) (splits store)\<rparr>))
                       (groupSplitsStores splitsState)\<rparr>))
             (splitsStates t)\<rparr>"

fun writeDataSources :: "(nat \<times> bool option) list \<Rightarrow> Task \<Rightarrow> Task" where
  "writeDataSources [] t = t"
| "writeDataSources (w # ws) t = writeDataSources ws (writeDataSource w t)"

text \<open>
  The preload loop of \<^verbatim>\<open>getSplitLocked\<close>, from index \<open>i\<close>. \<open>preload\<close> is the
  callback: it is given a connector split without data source and says what the data
  source is afterwards (the source's comment: it initialises
  \<^verbatim>\<open>split->dataSource\<close>). The callback works on the shared object, so the new data
  source shows in every entry of the queue that points to it: a later entry of the same
  object is not preloaded again, and can be the ready one. The loop carries the queue,
  \<open>readySplitIndex\<close>, the set \<open>preloadingSplits\<close> and the writes of the callback
  made so far (address and new data source). Reading the connector split of a split
  that has none is a null dereference.
\<close>

function preloadLoop ::
  "(ConnectorSplit \<Rightarrow> bool option) \<Rightarrow> int \<Rightarrow> nat \<Rightarrow> Split list \<Rightarrow> int \<Rightarrow> nat set
     \<Rightarrow> (nat \<times> bool option) list
     \<Rightarrow> error + (Split list \<times> int \<times> nat set \<times> (nat \<times> bool option) list)" where
  "preloadLoop preload maxPreloadSplits i queue readySplitIndex preloading writes =
     (if i < length queue \<and> int i < maxPreloadSplits then
        (if isBarrier (queue ! i)
         then preloadLoop preload maxPreloadSplits (Suc i) queue readySplitIndex preloading writes
         else
           (case connectorSplit (queue ! i) of
              None \<Rightarrow> Inl NullDereference
            | Some cs \<Rightarrow>
                (case dataSource cs of
                   None \<Rightarrow>
                     preloadLoop preload maxPreloadSplits (Suc i)
                       (map (setDataSource (addr cs) (preload cs)) queue)
                       readySplitIndex (insert (addr cs) preloading)
                       (writes @ [(addr cs, preload cs)])
                 | Some hasValue \<Rightarrow>
                     if readySplitIndex = - 1 \<and> hasValue
                     then preloadLoop preload maxPreloadSplits (Suc i) queue (int i)
                            (preloading - {addr cs}) writes
                     else preloadLoop preload maxPreloadSplits (Suc i) queue readySplitIndex
                            preloading writes)))
      else Inr (queue, readySplitIndex, preloading, writes))"
  by pat_completeness auto
termination
  by (relation "measure (\<lambda>(preload, m, i, queue, r, p, c). length queue - i)") auto

declare preloadLoop.simps [simp del]

definition eraseAt :: "'a list \<Rightarrow> nat \<Rightarrow> 'a list" where
  "eraseAt xs i = take i xs @ drop (Suc i) xs"

definition startSplitStats :: "bool \<Rightarrow> Split \<Rightarrow> nat \<Rightarrow> TaskStats \<Rightarrow> TaskStats" where
  "startSplitStats forTableScan split now stats =
     (let s1 = stats\<lparr>numQueuedSplits := numQueuedSplits stats - 1,
                     numRunningSplits := numRunningSplits stats + 1\<rparr>;
          s2 = (case connectorSplit split of
                  Some cs \<Rightarrow>
                    if forTableScan
                    then s1\<lparr>numQueuedTableScanSplits := numQueuedTableScanSplits s1 - 1,
                            numRunningTableScanSplits := numRunningTableScanSplits s1 + 1,
                            queuedTableScanSplitWeights := queuedTableScanSplitWeights s1 - splitWeight cs,
                            runningTableScanSplitWeights := runningTableScanSplitWeights s1 + splitWeight cs\<rparr>
                    else s1
                | None \<Rightarrow> s1);
          s3 = s2\<lparr>lastSplitStartTimeMs := now\<rparr>
      in if firstSplitStartTimeMs s3 = 0 then s3\<lparr>firstSplitStartTimeMs := now\<rparr> else s3)"

text \<open>
  \<^verbatim>\<open>getSplitLocked\<close> on a store of the task; \<open>now\<close> is
  \<^verbatim>\<open>getCurrentTimeMs()\<close>. The result is the split, the store and the task as the
  call leaves them, and the calls of the preload callback. The data sources that the
  callback has set are written in the other stores of the task as well.
\<close>

definition getSplitLocked ::
  "(ConnectorSplit \<Rightarrow> bool option) \<Rightarrow> nat \<Rightarrow> Task \<Rightarrow> bool \<Rightarrow> SplitsStore \<Rightarrow> int
     \<Rightarrow> error + (Split \<times> SplitsStore \<times> Task \<times> event list)" where
  "getSplitLocked preload now t forTableScan splitsStore maxPreloadSplits =
     (case (if maxPreloadSplits > 0
            then preloadLoop preload maxPreloadSplits 0 (splits splitsStore) (- 1)
                   (preloadingSplits t) []
            else Inr (splits splitsStore, - 1, preloadingSplits t, [])) of
        Inl e \<Rightarrow> Inl e
      | Inr (queue, ready, preloading, writes) \<Rightarrow>
          (let readySplitIndex = (if ready = - 1 then 0 else ready)
           in if queue = [] then Inl (VeloxRuntimeError ''!splitsStore.splits.empty()'')
              else
                (let split = queue ! nat readySplitIndex;
                     t1 = writeDataSources writes t
                 in Inr (split,
                         splitsStore\<lparr>splits := eraseAt queue (nat readySplitIndex)\<rparr>,
                         t1\<lparr>preloadingSplits := preloading,
                            taskStats := startSplitStats forTableScan split now (taskStats t1)\<rparr>,
                         map (\<lambda>(a, v). PreloadCall a) writes))))"

text \<open>
  \<^verbatim>\<open>getSplitOrFutureLocked\<close>. \<open>split\<close> and \<open>future\<close> are the caller's variables
  behind the two reference parameters; the result gives their values after the call
  (a future is \<open>None\<close> while it is not valid, and \<open>Some p\<close> when it is the future
  of promise \<open>p\<close>).
\<close>

record SplitOrFuture =
  blockingReason :: BlockingReason
  splitOut :: Split
  futureOut :: "promise option"

definition getSplitOrFutureLocked ::
  "(ConnectorSplit \<Rightarrow> bool option) \<Rightarrow> nat \<Rightarrow> Task \<Rightarrow> bool \<Rightarrow> SplitsStore \<Rightarrow> Split \<Rightarrow> promise option
     \<Rightarrow> int \<Rightarrow> error + (SplitOrFuture \<times> SplitsStore \<times> Task \<times> event list)" where
  "getSplitOrFutureLocked preload now t forTableScan splitsStore split future maxPreloadSplits =
     (if splits splitsStore = [] then
        (if noMoreSplits splitsStore
         then Inr (\<lparr>blockingReason = kNotBlocked, splitOut = split, futureOut = future\<rparr>,
                   splitsStore, t, [])
         else Inr (\<lparr>blockingReason = kWaitForSplit, splitOut = split,
                    futureOut = Some (promiseCounter t)\<rparr>,
                   splitsStore\<lparr>splitPromises := splitPromises splitsStore @ [promiseCounter t]\<rparr>,
                   t\<lparr>promiseCounter := Suc (promiseCounter t)\<rparr>, []))
      else
        (case getSplitLocked preload now t forTableScan splitsStore maxPreloadSplits of
           Inl e \<Rightarrow> Inl e
         | Inr (s, store, t', calls) \<Rightarrow>
             Inr (\<lparr>blockingReason = kNotBlocked, splitOut = s, futureOut = future\<rparr>,
                  store, t', calls)))"

text \<open>
  \<^verbatim>\<open>getSplitOrFuture\<close>. The source works on references into the task; the model
  takes the store out, and puts it back into the state of the plan node as the call
  has left it.
\<close>

definition getSplitOrFuture ::
  "(ConnectorSplit \<Rightarrow> bool option) \<Rightarrow> nat \<Rightarrow> Task \<Rightarrow> 32 word \<Rightarrow> PlanNodeId \<Rightarrow> Split \<Rightarrow> promise option
     \<Rightarrow> int \<Rightarrow> (error + SplitOrFuture) \<times> Task \<times> event list" where
  "getSplitOrFuture preload now t splitGroupId planNodeId split future maxPreloadSplits =
     (case getPlanNodeSplitsStateLocked t planNodeId of
        Inl e \<Rightarrow> (Inl e, t, [])
      | Inr splitsState \<Rightarrow>
          (case getSplitOrFutureLocked preload now t (sourceIsTableScan splitsState)
                  (storeAt (groupSplitsStores splitsState) splitGroupId) split future maxPreloadSplits of
             Inl e \<Rightarrow> (Inl e, t, [])
           | Inr (r, store, t', calls) \<Rightarrow>
               (case getPlanNodeSplitsStateLocked t' planNodeId of
                  Inl e \<Rightarrow> (Inl e, t', calls)
                | Inr splitsState' \<Rightarrow>
                    (Inr r, putStore t' planNodeId splitsState' splitGroupId store, calls))))"

section \<open>The barrier protocol\<close>

definition underBarrier :: "Task \<Rightarrow> bool" where
  "underBarrier t = barrierRequested t"

text \<open>
  The first loop of \<^verbatim>\<open>startBarrier\<close>: every leaf must be a table scan that has not
  received no-more-splits.
\<close>

fun checkBarrierLeafs :: "Task \<Rightarrow> PlanNodeId list \<Rightarrow> error option" where
  "checkBarrierLeafs t [] = None"
| "checkBarrierLeafs t (leafPlanNode # rest) =
     (case getPlanNodeSplitsStateLocked t leafPlanNode of
        Inl e \<Rightarrow> Some e
      | Inr splitState \<Rightarrow>
          if \<not> sourceIsTableScan splitState
          then Some (VeloxRuntimeError ''splitState.sourceIsTableScan'')
          else if nodeNoMoreSplits splitState
          then Some (VeloxRuntimeError
                 ''Can't start barrier on task which has already received no more splits'')
          else checkBarrierLeafs t rest)"

text \<open>
  The second loop: a barrier split is added to every leaf; the waiter promises that
  \<^verbatim>\<open>addSplitLocked\<close> hands back are collected.
\<close>

fun addBarrierSplits ::
  "PlanNodeId list \<Rightarrow> Task \<Rightarrow> promise list \<Rightarrow> error option \<times> Task \<times> promise list" where
  "addBarrierSplits [] t promises = (None, t, promises)"
| "addBarrierSplits (leafPlanNode # rest) t promises =
     (case getPlanNodeSplitsStateLocked t leafPlanNode of
        Inl e \<Rightarrow> (Some e, t, promises)
      | Inr splitState \<Rightarrow>
          (case addSplitLocked t leafPlanNode splitState createBarrier of
             (Inl e, t') \<Rightarrow> (Some e, t', promises)
           | (Inr None, t') \<Rightarrow> addBarrierSplits rest t' promises
           | (Inr (Some promise), t') \<Rightarrow> addBarrierSplits rest t' (promises @ [promise])))"

text \<open>
  \<^verbatim>\<open>startDriverBarriersLocked\<close>: every driver slot must hold a driver; each
  driver starts its barrier and is counted.
\<close>

function driverBarrierLoop :: "nat \<Rightarrow> Task \<Rightarrow> error option \<times> Task" where
  "driverBarrierLoop i t =
     (if i < length (drivers t) then
        (case drivers t ! i of
           None \<Rightarrow> (Some (VeloxRuntimeError ''driver is null''), t)
         | Some d \<Rightarrow>
             driverBarrierLoop (Suc i)
               (t\<lparr>drivers := (drivers t)[i := Some (d\<lparr>inBarrier := True\<rparr>)],
                  numDriversUnderBarrier := Suc (numDriversUnderBarrier t)\<rparr>))
      else (None, t))"
  by pat_completeness auto
termination
  by (relation "measure (\<lambda>(i, t). length (drivers t) - i)") auto

declare driverBarrierLoop.simps [simp del]

definition startDriverBarriersLocked :: "Task \<Rightarrow> error option \<times> Task" where
  "startDriverBarriersLocked t =
     (if \<not> underBarrier t then (Some (VeloxRuntimeError ''underBarrier()''), t)
      else if numDriversUnderBarrier t \<noteq> 0
      then (Some (VeloxRuntimeError ''numDriversUnderBarrier_ == 0''), t)
      else (case driverBarrierLoop 0 t of
              (Some e, t') \<Rightarrow> (Some e, t')
            | (None, t') \<Rightarrow>
                if numDriversUnderBarrier t' \<noteq> length (drivers t')
                then (Some (VeloxRuntimeError ''numDriversUnderBarrier_ == drivers_.size()''), t')
                else (None, t')))"

text \<open>
  \<^verbatim>\<open>startBarrier\<close>; \<open>nowUs\<close> is \<^verbatim>\<open>getCurrentTimeMicro()\<close>. The result is the
  future (the number of its promise). The events are what the scope guard fulfils when
  the function is left, also by an exception: the promise of the call itself when the
  task is not running, and otherwise the split waiters that the barrier splits woke up.
\<close>

definition startBarrier :: "nat \<Rightarrow> Task \<Rightarrow> (error + promise) \<times> Task \<times> event list" where
  "startBarrier nowUs t =
     (case ensureBarrierSupport t of
        Some e \<Rightarrow> (Inl e, t, [])
      | None \<Rightarrow>
          (let promise = promiseCounter t;
               t0 = t\<lparr>promiseCounter := Suc (promiseCounter t)\<rparr>
           in if \<not> isRunningLocked t0 then (Inr promise, t0, [SetValue promise])
              else
                (case checkBarrierLeafs t0 (leafPlanNodeIds t0) of
                   Some e \<Rightarrow> (Inl e, t0, [])
                 | None \<Rightarrow>
                     (let t1 = t0\<lparr>barrierFinishPromises := barrierFinishPromises t0 @ [promise]\<rparr>
                      in if barrierRequested t1 then (Inr promise, t1, [])
                         else
                           (let t2 = t1\<lparr>barrierRequested := True, barrierStartUs := nowUs,
                                       taskStats := (taskStats t1)
                                         \<lparr>numBarriers := Suc (numBarriers (taskStats t1))\<rparr>\<rparr>
                            in case addBarrierSplits (leafPlanNodeIds t2) t2 [] of
                                 (Some e, t3, promises) \<Rightarrow> (Inl e, t3, map SetValue promises)
                               | (None, t3, promises) \<Rightarrow>
                                   (case startDriverBarriersLocked t3 of
                                      (Some e, t4) \<Rightarrow> (Inl e, t4, map SetValue promises)
                                    | (None, t4) \<Rightarrow> (Inr promise, t4, map SetValue promises)))))))"

definition requestBarrier :: "nat \<Rightarrow> Task \<Rightarrow> (error + promise) \<times> Task \<times> event list" where
  "requestBarrier nowUs t =
     (case ensureBarrierSupport t of
        Some e \<Rightarrow> (Inl e, t, [])
      | None \<Rightarrow> startBarrier nowUs t)"



section \<open>Finishing and terminating\<close>

definition driverClosedLocked :: "Task \<Rightarrow> Task" where
  "driverClosedLocked t =
     (let t1 = (if isRunningLocked t then t\<lparr>numRunningDrivers := numRunningDrivers t - 1\<rparr> else t)
      in t1\<lparr>numFinishedDrivers := numFinishedDrivers t1 + 1\<rparr>)"

text \<open>
  Modelled from the spec: \<^verbatim>\<open>hasPartitionedOutput\<close> and \<^verbatim>\<open>numDrivers\<close> are
  defined in \<^verbatim>\<open>Task.h\<close>, which is not among the sources: the task has a
  partitioned output when \<open>numDriversInPartitionedOutput\<close> is positive, and the
  number of drivers of a pipeline is the one of its driver factory.
\<close>

definition hasPartitionedOutput :: "Task \<Rightarrow> bool" where
  "hasPartitionedOutput t = (0 < numDriversInPartitionedOutput t)"

definition numDriversOf :: "Task \<Rightarrow> nat \<Rightarrow> 32 word" where
  "numDriversOf t pipelineId = numDrivers (driverFactories t ! pipelineId)"

fun findOutputDriver :: "DriverFactory list \<Rightarrow> nat \<Rightarrow> nat option" where
  "findOutputDriver [] i = None"
| "findOutputDriver (f # fs) i = (if outputDriver f then Some i else findOutputDriver fs (Suc i))"

definition getOutputPipelineId :: "Task \<Rightarrow> error + nat" where
  "getOutputPipelineId t =
     (case findOutputDriver (driverFactories t) 0 of
        Some i \<Rightarrow> Inr i
      | None \<Rightarrow> Inl (VeloxRuntimeError ''Output pipeline not found for task''))"

text \<open>\<^verbatim>\<open>checkIfFinishedLocked\<close>; \<open>now\<close> is \<^verbatim>\<open>getCurrentTimeMs()\<close>.\<close>

definition checkIfFinishedLocked :: "nat \<Rightarrow> Task \<Rightarrow> (error + bool) \<times> Task" where
  "checkIfFinishedLocked now t =
     (if \<not> isRunningLocked t then (Inr False, t)
      else
        (let allFinished = (numFinishedDrivers t = numTotalDrivers t);
             done = (\<lambda>t'. if hasPartitionedOutput t' \<and> \<not> partitionedOutputConsumed t'
                          then (Inr False, t')
                          else (Inr True, t'\<lparr>taskStats := (taskStats t')\<lparr>endTimeMs := now\<rparr>\<rparr>))
         in if \<not> allFinished \<and> \<not> isGroupedExecution t then
              (case getOutputPipelineId t of
                 Inl e \<Rightarrow> (Inl e, t)
               | Inr outputPipelineId \<Rightarrow>
                   if numFinishedOutputDriversUngrouped t = numDriversOf t outputPipelineId
                   then done (if executionEndTimeMs (taskStats t) = 0
                              then t\<lparr>taskStats := (taskStats t)\<lparr>executionEndTimeMs := now\<rparr>\<rparr>
                              else t)
                   else (Inr False, t))
            else if allFinished then done t
            else (Inr False, t)))"

text \<open>
  \<^verbatim>\<open>makeFinishFutureLocked\<close>: a new promise, fulfilled at once when no thread is
  running, and kept in \<open>threadFinishPromises\<close> otherwise.
\<close>

definition makeFinishFutureLocked :: "Task \<Rightarrow> promise \<times> Task \<times> event list" where
  "makeFinishFutureLocked t =
     (let promise = promiseCounter t;
          t1 = t\<lparr>promiseCounter := Suc (promiseCounter t)\<rparr>
      in if numThreads t1 = 0 then (promise, t1, [SetValue promise])
         else (promise, t1\<lparr>threadFinishPromises := threadFinishPromises t1 @ [promise]\<rparr>, []))"

definition taskCompletionFuture :: "Task \<Rightarrow> promise \<times> Task \<times> event list" where
  "taskCompletionFuture t =
     (if \<not> isRunningLocked t then makeFinishFutureLocked t
      else (promiseCounter t,
            t\<lparr>promiseCounter := Suc (promiseCounter t),
              taskCompletionPromises := taskCompletionPromises t @ [promiseCounter t]\<rparr>,
            []))"

definition setThread :: "ThreadState \<Rightarrow> ThreadState" where
  "setThread s = s\<lparr>onThread := True\<rparr>"

definition enterForTerminateLocked :: "Task \<Rightarrow> ThreadState \<Rightarrow> StopReason \<times> ThreadState" where
  "enterForTerminateLocked t s =
     (if onThread s \<or> isTerminated s then (kAlreadyOnThread, s\<lparr>isTerminated := True\<rparr>)
      else if pauseRequested t then (kPause, s)
      else (kTerminate, setThread (s\<lparr>isTerminated := True\<rparr>)))"

text \<open>
  The driver loop of \<^verbatim>\<open>terminate\<close>: a driver that is off thread, while no pause is
  requested, is moved out of its slot and counted as closed.
\<close>

function terminateDriversLoop :: "nat \<Rightarrow> Task \<Rightarrow> Driver list \<Rightarrow> Task \<times> Driver list" where
  "terminateDriversLoop i t offThreadDrivers =
     (if i < length (drivers t) then
        (case drivers t ! i of
           None \<Rightarrow> terminateDriversLoop (Suc i) t offThreadDrivers
         | Some d \<Rightarrow>
             (case enterForTerminateLocked t (state d) of
                (reason, s) \<Rightarrow>
                  if reason = kTerminate
                  then terminateDriversLoop (Suc i)
                         (driverClosedLocked (t\<lparr>drivers := (drivers t)[i := None]\<rparr>))
                         (offThreadDrivers @ [d\<lparr>state := s\<rparr>])
                  else terminateDriversLoop (Suc i)
                         (t\<lparr>drivers := (drivers t)[i := Some (d\<lparr>state := s\<rparr>)]\<rparr>)
                         offThreadDrivers))
      else (t, offThreadDrivers))"
  by pat_completeness auto
termination
  by (relation "measure (\<lambda>(i, t, ds). length (drivers t) - i)")
    (auto simp: driverClosedLocked_def Let_def)

declare terminateDriversLoop.simps [simp del]

text \<open>
  The second locked section of \<^verbatim>\<open>terminate\<close>: the waiter promises of all stores
  are moved out, and the stores of a plan node with an exchange client are drained with
  \<^verbatim>\<open>getSplitLocked\<close> (no preloading).
\<close>

definition takeStorePromises ::
  "(32 word \<times> SplitsStore) list \<Rightarrow> promise list \<times> (32 word \<times> SplitsStore) list" where
  "takeStorePromises stores =
     (concat (map (\<lambda>(g, store). splitPromises store) stores),
      map (\<lambda>(g, store). (g, store\<lparr>splitPromises := []\<rparr>)) stores)"

function drainStore ::
  "nat \<Rightarrow> bool \<Rightarrow> SplitsStore \<Rightarrow> Task \<Rightarrow> Split list \<Rightarrow> SplitsStore \<times> Task \<times> Split list" where
  "drainStore now forTableScan store t acc =
     (if splits store \<noteq> [] then
        (case getSplitLocked (\<lambda>cs. None) now t forTableScan store 0 of
           Inl e \<Rightarrow> (store, t, acc)
         | Inr (s, store', t', calls) \<Rightarrow> drainStore now forTableScan store' t' (acc @ [s]))
      else (store, t, acc))"
  by pat_completeness auto
termination
  by (relation "measure (\<lambda>(now, f, store, t, acc). length (splits store))")
    (auto simp: getSplitLocked_def Let_def eraseAt_def split: if_splits)

declare drainStore.simps [simp del]

fun drainStores ::
  "nat \<Rightarrow> bool \<Rightarrow> (32 word \<times> SplitsStore) list \<Rightarrow> Task \<Rightarrow> Split list
     \<Rightarrow> (32 word \<times> SplitsStore) list \<times> Task \<times> Split list" where
  "drainStores now forTableScan [] t acc = ([], t, acc)"
| "drainStores now forTableScan ((g, store) # rest) t acc =
     (case drainStore now forTableScan store t acc of
        (store', t', acc') \<Rightarrow>
          (case drainStores now forTableScan rest t' acc' of
             (rest', t'', acc'') \<Rightarrow> ((g, store') # rest', t'', acc'')))"

fun releaseSplitsStates ::
  "nat \<Rightarrow> (PlanNodeId \<times> SplitsState) list \<Rightarrow> Task
     \<Rightarrow> (PlanNodeId \<times> SplitsState) list \<times> Task \<times> promise list
         \<times> (PlanNodeId \<times> Split list \<times> bool) list" where
  "releaseSplitsStates now [] t = ([], t, [], [])"
| "releaseSplitsStates now ((planNodeId, splitState) # rest) t =
     (case takeStorePromises (groupSplitsStores splitState) of
        (promises, stores) \<Rightarrow>
          (case (if planNodeId \<in> set (exchangeClientByPlanNode t)
                 then drainStores now (sourceIsTableScan splitState) stores t []
                 else (stores, t, [])) of
             (stores', t', remote) \<Rightarrow>
               (case releaseSplitsStates now rest t' of
                  (rest', t'', promises', remaining) \<Rightarrow>
                    ((planNodeId, splitState\<lparr>groupSplitsStores := stores'\<rparr>) # rest', t'',
                     promises @ promises',
                     (if remote = [] then []
                      else [(planNodeId, remote, nodeNoMoreSplits splitState)]) @ remaining))))"

text \<open>
  What \<^verbatim>\<open>terminate\<close> does with the remaining remote splits: each is passed to
  \<^verbatim>\<open>addRemoteSplit\<close>, whose runtime error is caught and logged.
\<close>

definition resendRemoteSplits :: "Task \<Rightarrow> (PlanNodeId \<times> Split list \<times> bool) list \<Rightarrow> event list" where
  "resendRemoteSplits t remaining =
     concat (map (\<lambda>(planNodeId, remote, noMore).
                    concat (map (\<lambda>split. case addRemoteSplit t planNodeId split of
                                            Inl e \<Rightarrow> [LogWarning]
                                          | Inr evs \<Rightarrow> evs) remote)
                    @ (if noMore then [NoMoreRemoteTasks planNodeId] else []))
                 remaining)"

definition cancelMessage :: "TaskState \<Rightarrow> exception_ptr \<Rightarrow> exception_ptr" where
  "cancelMessage s old =
     (if s = kCanceled then Some ''Cancelled''
      else if s = kAborted then Some ''Aborted for external error''
      else old)"

text \<open>
  \<^verbatim>\<open>terminate\<close>; \<open>now\<close> is \<^verbatim>\<open>getCurrentTimeMs()\<close>. The result is the finish
  future. The events after the first locked section are, in order: the completion
  promises and the completion listeners, the state change promises, the drivers closed
  by the task, the output buffer manager and the exchange clients, the remote splits,
  the split waiters, the join bridges, the preloading splits, the barrier promises and
  the finish future.
\<close>

definition terminate :: "nat \<Rightarrow> TaskState \<Rightarrow> Task \<Rightarrow> (error + promise) \<times> Task \<times> event list" where
  "terminate now terminalState t =
     (let t0 = (if executionEndTimeMs (taskStats t) = 0
                then t\<lparr>taskStats := (taskStats t)\<lparr>executionEndTimeMs := now\<rparr>\<rparr> else t)
      in if \<not> isRunningLocked t0
         then (case makeFinishFutureLocked t0 of (future, t', evs) \<Rightarrow> (Inr future, t', evs))
         else
           (let t1 = t0\<lparr>taskState := terminalState\<rparr>
            in if terminationTimeMs (taskStats t1) \<noteq> 0
               then (Inl (VeloxRuntimeError
                       ''Termination time has already been set, this should only happen once.''),
                     t1, [])
               else
                 (let t2 = t1\<lparr>taskStats := (taskStats t1)\<lparr>terminationTimeMs := now\<rparr>,
                             exception := cancelMessage terminalState (exception t1)\<rparr>
                  in if terminalState \<noteq> kFinished \<and> cancellationRequested t2
                     then (Inl (VeloxRuntimeError ''!cancellationSource_.isCancellationRequested()''),
                           t2, [])
                     else
                       (let t3 = t2\<lparr>cancellationRequested :=
                                     (terminalState \<noteq> kFinished \<or> cancellationRequested t2),
                                   taskCompletionPromises := [], stateChangePromises := [],
                                   numTotalDrivers :=
                                     of_nat (length (seenSplitGroups t2)) * numDriversPerSplitGroup t2
                                       + numDriversUngrouped t2,
                                   terminateRequested := True, numRunningDrivers := 0\<rparr>
                        in case terminateDriversLoop 0 t3 [] of
                             (t4, offThreadDrivers) \<Rightarrow>
                               (let t5 = t4\<lparr>barrierFinishPromises := []\<rparr>
                                in case releaseSplitsStates now (splitsStates t5) t5 of
                                     (states, t6, waiters, remaining) \<Rightarrow>
                                       (let t7 = t6\<lparr>splitsStates := states\<rparr>;
                                            t8 = t7\<lparr>preloadingSplits := {}\<rparr>
                                        in case makeFinishFutureLocked t8 of
                                             (future, t9, finishEvs) \<Rightarrow>
                                               (Inr future, t9,
                                                map SetValue (taskCompletionPromises t2)
                                                @ [OnTaskCompletion]
                                                @ map SetValue (stateChangePromises t2)
                                                @ map (\<lambda>d. CloseByTask (driverId d)) offThreadDrivers
                                                @ (if hasPartitionedOutput t5
                                                   then [RemoveFromOutputBufferManager] else [])
                                                @ [CloseExchangeClients]
                                                @ resendRemoteSplits t7 remaining
                                                @ map SetValue waiters
                                                @ [CancelJoinBridges, ClosePreloadingSplits]
                                                @ map SetValue (barrierFinishPromises t4)
                                                @ finishEvs)))))))"

text \<open>
  \<^verbatim>\<open>setError\<close>: the exception is stored when the task runs and has none yet; then
  the task is terminated as failed and the error callback, if set, is called.
\<close>

definition setError :: "nat \<Rightarrow> exception_ptr \<Rightarrow> Task \<Rightarrow> error option \<times> Task \<times> event list" where
  "setError now e t =
     (if \<not> isRunningLocked t then (None, t, [])
      else if exception t \<noteq> None then (None, t, [])
      else
        (case terminate now kFailed (t\<lparr>exception := e\<rparr>) of
           (Inl err, t', evs) \<Rightarrow> (Some err, t', evs)
         | (Inr future, t', evs) \<Rightarrow>
             (None, t', evs @ (if onError t' then [OnError (exception t')] else []))))"

section \<open>Pause, resume and memory reclaim\<close>

definition requestPause :: "Task \<Rightarrow> promise \<times> Task \<times> event list" where
  "requestPause t = makeFinishFutureLocked (t\<lparr>pauseRequested := True\<rparr>)"

text \<open>
  The loop of \<^verbatim>\<open>Task::resume\<close> over the drivers of a running task; \<open>now\<close> is
  \<^verbatim>\<open>getCurrentTimeMs()\<close>. A driver that is neither suspended nor enqueued must be
  off thread and not terminated; it is enqueued when it has no blocking future and an
  executor is supplied.
\<close>

definition resumeDriver :: "64 word \<Rightarrow> Task \<Rightarrow> Driver \<Rightarrow> error + Driver" where
  "resumeDriver now t d =
     (if suspended (state d) then Inr d
      else if isEnqueued (state d) then Inr d
      else if \<not> (\<not> onThread (state d) \<and> \<not> isTerminated (state d))
      then Inl (VeloxRuntimeError ''!driver->isOnThread() && !driver->isTerminated()'')
      else if \<not> hasBlockingFuture (state d) \<and> isExecutorSupplied t
      then Inr (enqueue
                 (if endExecTimeMs (state d) \<noteq> 0
                  then d\<lparr>state := (state d)\<lparr>totalPauseTimeMs :=
                         totalPauseTimeMs (state d) + (now - endExecTimeMs (state d))\<rparr>\<rparr>
                  else d))
      else Inr d)"

function resumeRunningLoop :: "64 word \<Rightarrow> nat \<Rightarrow> Task \<Rightarrow> error option \<times> Task" where
  "resumeRunningLoop now i t =
     (if i < length (drivers t) then
        (case drivers t ! i of
           None \<Rightarrow> resumeRunningLoop now (Suc i) t
         | Some d \<Rightarrow>
             (case resumeDriver now t d of
                Inl e \<Rightarrow> (Some e, t)
              | Inr d' \<Rightarrow> resumeRunningLoop now (Suc i) (t\<lparr>drivers := (drivers t)[i := Some d']\<rparr>)))
      else (None, t))"
  by pat_completeness auto
termination
  by (relation "measure (\<lambda>(now, i, t). length (drivers t) - i)") auto

declare resumeRunningLoop.simps [simp del]

text \<open>
  The loop over the drivers of a task that no longer runs: an off-thread driver that is
  not terminated is marked terminated, counted as closed and moved out of its slot.
\<close>

function resumeTerminatedLoop :: "nat \<Rightarrow> Task \<Rightarrow> Driver list \<Rightarrow> error option \<times> Task \<times> Driver list" where
  "resumeTerminatedLoop i t offThreadDrivers =
     (if i < length (drivers t) then
        (case drivers t ! i of
           None \<Rightarrow> resumeTerminatedLoop (Suc i) t offThreadDrivers
         | Some d \<Rightarrow>
             if onThread (state d) then
               (if \<not> isTerminated (state d)
                then (Some (VeloxRuntimeError ''driver->isTerminated()''), t, offThreadDrivers)
                else resumeTerminatedLoop (Suc i) t offThreadDrivers)
             else if isTerminated (state d) then resumeTerminatedLoop (Suc i) t offThreadDrivers
             else resumeTerminatedLoop (Suc i)
                    (driverClosedLocked (t\<lparr>drivers := (drivers t)[i := None]\<rparr>))
                    (offThreadDrivers
                       @ [d\<lparr>state := setThread ((state d)\<lparr>isTerminated := True\<rparr>)\<rparr>]))
      else (None, t, offThreadDrivers))"
  by pat_completeness auto
termination
  by (relation "measure (\<lambda>(i, t, ds). length (drivers t) - i)")
    (auto simp: driverClosedLocked_def Let_def)

declare resumeTerminatedLoop.simps [simp del]

text \<open>
  \<^verbatim>\<open>Task::resume\<close>. The scope guard closes the drivers collected so far and fulfils
  the resume promises that were swapped out; when a check fails inside a loop the swap
  has not happened, and no resume promise is fulfilled.
\<close>

definition resume :: "64 word \<Rightarrow> Task \<Rightarrow> error option \<times> Task \<times> event list" where
  "resume now t =
     (let t1 = t\<lparr>pauseRequested := False\<rparr>
      in if isRunningLocked t1 then
           (case resumeRunningLoop now 0 t1 of
              (Some e, t2) \<Rightarrow> (Some e, t2, [])
            | (None, t2) \<Rightarrow>
                (None, t2\<lparr>resumePromises := []\<rparr>, map SetValue (resumePromises t2)))
         else
           (case resumeTerminatedLoop 0 t1 [] of
              (Some e, t2, offThreadDrivers) \<Rightarrow>
                (Some e, t2, map (\<lambda>d. CloseByTask (driverId d)) offThreadDrivers)
            | (None, t2, offThreadDrivers) \<Rightarrow>
                (None, t2\<lparr>resumePromises := []\<rparr>,
                 map (\<lambda>d. CloseByTask (driverId d)) offThreadDrivers
                 @ map SetValue (resumePromises t2))))"

text \<open>
  The surroundings of one \<^verbatim>\<open>MemoryReclaimer::reclaim\<close> call, which the task does
  not decide: whether the reclaimer still finds its task and the pool it is called for
  is the task's; how the wait for the pause future ends when the future is not ready at
  once (the running threads leave in time, the wait times out, or the threads never
  leave), and what other threads did to the task until the wait ended; what
  \<^verbatim>\<open>isCancelled\<close>, which is defined in \<^verbatim>\<open>Task.h\<close>, answers; whether the reclaim of
  the pool tree returns a number of bytes or throws; and the clock readings
  (\<open>reclaimTimeUs\<close> is what the timer around \<^verbatim>\<open>reclaimTask\<close> measures).
\<close>

datatype waitOutcome = Satisfied | TimedOut | Never

record reclaimEnv =
  taskAlive :: bool
  poolNameMatches :: bool
  waitEnds :: waitOutcome
  duringWait :: "Task \<Rightarrow> Task"
  isCancelled :: "Task \<Rightarrow> bool"
  poolReclaim :: "string + nat"
  nowMs :: nat
  resumeMs :: "64 word"
  reclaimTimeUs :: nat

text \<open>
  The scope guard of \<^verbatim>\<open>reclaimTask\<close>: it calls \<^verbatim>\<open>Task::resume\<close> and swallows a
  runtime error of it with a warning.
\<close>

definition resumeGuard ::
  "reclaimEnv \<Rightarrow> (error + nat) \<times> Task \<times> event list \<Rightarrow> (error + nat) \<times> Task \<times> event list" where
  "resumeGuard env r =
     (case r of
        (result, t, evs) \<Rightarrow>
          (case resume (resumeMs env) t of
             (err, t', evs') \<Rightarrow>
               (result, t',
                evs @ [ResumeCall] @ evs' @ (case err of Some e \<Rightarrow> [LogWarning] | None \<Rightarrow> []))))"

text \<open>
  \<^verbatim>\<open>reclaimTask\<close>. The future of \<^verbatim>\<open>requestPause\<close> is ready at once when no
  thread runs; otherwise the wait is satisfied only when the surroundings say so. With
  \<open>maxWaitMs = 0\<close> the wait has no time limit, and the call never returns (the result
  \<open>None\<close>) when the future is never fulfilled; with a time limit such a wait ends
  unpaused. When the reclaim of the pool tree throws, the task is failed with
  \<^verbatim>\<open>setError\<close> and the exception is thrown again; a failed check of
  \<^verbatim>\<open>setError\<close> itself leaves the handler in its place.
\<close>

definition reclaimTask ::
  "reclaimEnv \<Rightarrow> nat \<Rightarrow> Task \<Rightarrow> ((error + nat) \<times> Task \<times> event list) option" where
  "reclaimTask env maxWaitMs t =
     (case requestPause t of
        (future, t1, evs1) \<Rightarrow>
          (let paused = (SetValue future \<in> set evs1 \<or> waitEnds env = Satisfied);
               t2 = duringWait env t1
           in if maxWaitMs = 0 \<and> \<not> paused then None
              else
                Some (resumeGuard env
                  (if \<not> paused
                   then (Inl (VeloxRuntimeError ''Memory reclaim failed to wait for task to pause''),
                         t2, evs1)
                   else if isCancelled env t2 then (Inr 0, t2, evs1)
                   else
                     (case poolReclaim env of
                        Inr reclaimedBytes \<Rightarrow> (Inr reclaimedBytes, t2, evs1)
                      | Inl msg \<Rightarrow>
                          (case setError (nowMs env) (Some msg) t2 of
                             (err, t3, evs3) \<Rightarrow>
                               (case err of
                                  Some e \<Rightarrow> (Inl e, t3, evs1 @ evs3)
                                | None \<Rightarrow> (Inl (Rethrown msg), t3, evs1 @ evs3))))))))"

text \<open>
  \<^verbatim>\<open>MemoryReclaimer::reclaim\<close>: nothing happens when the task is gone, and the pool
  must be the pool of the task. When \<^verbatim>\<open>reclaimTask\<close> returns, the two reclaim
  counters of the task statistics are updated; an exception of \<^verbatim>\<open>reclaimTask\<close>
  passes through.
\<close>

definition reclaim ::
  "reclaimEnv \<Rightarrow> nat \<Rightarrow> Task \<Rightarrow> ((error + nat) \<times> Task \<times> event list) option" where
  "reclaim env maxWaitMs t =
     (if \<not> taskAlive env then Some (Inr 0, t, [])
      else if \<not> poolNameMatches env
      then Some (Inl (VeloxRuntimeError ''task->pool()->name() == pool->name()''), t, [])
      else
        (case reclaimTask env maxWaitMs t of
           None \<Rightarrow> None
         | Some (Inl e, t', evs) \<Rightarrow> Some (Inl e, t', evs)
         | Some (Inr reclaimedBytes, t', evs) \<Rightarrow>
             Some (Inr reclaimedBytes,
                   t'\<lparr>taskStats := (taskStats t')
                        \<lparr>memoryReclaimCount := memoryReclaimCount (taskStats t') + 1,
                         memoryReclaimMs :=
                           memoryReclaimMs (taskStats t') + reclaimTimeUs env div 1000\<rparr>\<rparr>,
                   evs)))"

section \<open>Vocabulary of the statements\<close>


definition isReady :: "Split \<Rightarrow> bool" where
  "isReady s =
     (\<not> isBarrier s \<and> (case connectorSplit s of Some cs \<Rightarrow> dataSource cs = Some True | None \<Rightarrow> False))"



fun firstReadyIndex :: "Split list \<Rightarrow> nat option" where
  "firstReadyIndex [] = None"
| "firstReadyIndex (s # ss) = (if isReady s then Some 0 else map_option Suc (firstReadyIndex ss))"

definition derefOk :: "Split \<Rightarrow> bool" where
  "derefOk s = (isBarrier s \<or> connectorSplit s \<noteq> None)"


definition readyIndex :: "int \<Rightarrow> Split list \<Rightarrow> nat" where
  "readyIndex maxPreloadSplits queue =
     (case firstReadyIndex (take (nat maxPreloadSplits) queue) of Some k \<Rightarrow> k | None \<Rightarrow> 0)"

text \<open>
  The addresses of the connector splits a queue points to, in queue order: the queue
  shares no object when they are distinct. And a split without regard to the data
  source of its connector split, which preloading may set while the split is queued.
\<close>

definition splitAddrs :: "Split list \<Rightarrow> nat list" where
  "splitAddrs queue =
     concat (map (\<lambda>s. case connectorSplit s of Some cs \<Rightarrow> [addr cs] | None \<Rightarrow> []) queue)"

definition withoutDataSource :: "Split \<Rightarrow> Split" where
  "withoutDataSource s =
     s\<lparr>connectorSplit := map_option (\<lambda>cs. cs\<lparr>dataSource := None\<rparr>) (connectorSplit s)\<rparr>"

text \<open>
  The promises that wait in the split stores of the task, and a sequence of calls made
  during a barrier round: each call runs on the task the one before left, the events
  are collected, and the first exception ends the sequence.
\<close>

definition storePromises :: "Task \<Rightarrow> promise list" where
  "storePromises t =
     concat (map (\<lambda>(planNodeId, splitsState).
                    concat (map (\<lambda>(g, store). splitPromises store) (groupSplitsStores splitsState)))
                 (splitsStates t))"







text \<open>
  The words of the statements about adding splits: the queue of a store of a plan node,
  the group a split is filed under, a split that takes the plain path of
  \<^verbatim>\<open>addSplitLocked\<close> (no barrier, no group, no data source yet), and a sequence of
  \<^verbatim>\<open>addSplitWithSequence\<close> calls on one plan node, which gives the values the calls
  returned.
\<close>

definition queueOf :: "Task \<Rightarrow> PlanNodeId \<Rightarrow> 32 word \<Rightarrow> Split list" where
  "queueOf t planNodeId g =
     (case map_of (splitsStates t) planNodeId of
        None \<Rightarrow> []
      | Some splitsState \<Rightarrow> splits (storeAt (groupSplitsStores splitsState) g))"

definition targetGroup :: "Split \<Rightarrow> 32 word" where
  "targetGroup split = (if isBarrier split then kUngroupedGroupId else groupId split)"

definition plainSplit :: "Split \<Rightarrow> bool" where
  "plainSplit split =
     (\<not> isBarrier split \<and> \<not> hasGroup split
      \<and> (case connectorSplit split of Some cs \<Rightarrow> dataSource cs = None | None \<Rightarrow> True))"

fun addSplitsWithSequence ::
  "Task \<Rightarrow> PlanNodeId \<Rightarrow> (Split \<times> int) list \<Rightarrow> (error + bool list) \<times> Task" where
  "addSplitsWithSequence t planNodeId [] = (Inr [], t)"
| "addSplitsWithSequence t planNodeId ((split, sequenceId) # rest) =
     (case addSplitWithSequence t planNodeId split sequenceId of
        (Inl e, t', evs) \<Rightarrow> (Inl e, t')
      | (Inr added, t', evs) \<Rightarrow>
          (case addSplitsWithSequence t' planNodeId rest of
             (Inl e, t'') \<Rightarrow> (Inl e, t'')
           | (Inr bs, t'') \<Rightarrow> (Inr (added # bs), t'')))"

text \<open>
  A sequence of \<^verbatim>\<open>getSplitOrFuture\<close> calls on one store, each with a fresh split
  variable and an invalid future; the result lists what the calls returned.
\<close>

fun getSplits ::
  "(ConnectorSplit \<Rightarrow> bool option) \<Rightarrow> nat list \<Rightarrow> Task \<Rightarrow> 32 word \<Rightarrow> PlanNodeId \<Rightarrow> int
     \<Rightarrow> (error + SplitOrFuture list) \<times> Task" where
  "getSplits preload [] t g planNodeId maxPreloadSplits = (Inr [], t)"
| "getSplits preload (now # rest) t g planNodeId maxPreloadSplits =
     (case getSplitOrFuture preload now t g planNodeId emptySplit None maxPreloadSplits of
        (Inl e, t', evs) \<Rightarrow> (Inl e, t')
      | (Inr r, t', evs) \<Rightarrow>
          (case getSplits preload rest t' g planNodeId maxPreloadSplits of
             (Inl e, t'') \<Rightarrow> (Inl e, t'')
           | (Inr rs, t'') \<Rightarrow> (Inr (r # rs), t'')))"

definition handedOut :: "Split \<Rightarrow> SplitOrFuture" where
  "handedOut s = \<lparr>blockingReason = kNotBlocked, splitOut = s, futureOut = None\<rparr>"

text \<open>The events of a remote split that is sent again to its exchange client.\<close>

fun isRemoteEvent :: "event \<Rightarrow> bool" where
  "isRemoteEvent (AddRemoteTaskId planNodeId taskId) = True"
| "isRemoteEvent (NoMoreRemoteTasks planNodeId) = True"
| "isRemoteEvent LogWarning = True"
| "isRemoteEvent ev = False"

text \<open>
  Sequences of calls on one task: \<open>k\<close> callers of \<^verbatim>\<open>taskCompletionFuture\<close>, and a
  list of \<^verbatim>\<open>terminate\<close> calls, each with its clock reading and terminal state. The
  promises of a task that \<^verbatim>\<open>terminate\<close> can fulfil are those of the completion and
  state change futures, of the split waiters and of the barrier.
\<close>

fun taskCompletionFutures :: "nat \<Rightarrow> Task \<Rightarrow> promise list \<times> Task \<times> event list" where
  "taskCompletionFutures 0 t = ([], t, [])"
| "taskCompletionFutures (Suc k) t =
     (case taskCompletionFuture t of
        (future, t1, evs1) \<Rightarrow>
          (case taskCompletionFutures k t1 of
             (futures, t2, evs2) \<Rightarrow> (future # futures, t2, evs1 @ evs2)))"

fun terminateCalls ::
  "(nat \<times> TaskState) list \<Rightarrow> Task \<Rightarrow> (error + promise) list \<times> Task \<times> event list" where
  "terminateCalls [] t = ([], t, [])"
| "terminateCalls ((now, terminalState) # calls) t =
     (case terminate now terminalState t of
        (r, t1, evs1) \<Rightarrow>
          (case terminateCalls calls t1 of
             (rs, t2, evs2) \<Rightarrow> (r # rs, t2, evs1 @ evs2)))"

definition pendingPromises :: "Task \<Rightarrow> promise list" where
  "pendingPromises t =
     taskCompletionPromises t @ stateChangePromises t @ storePromises t @ barrierFinishPromises t"

text \<open>
  The words of the statements about \<^verbatim>\<open>Task::resume\<close>. On a running task the check
  of the loop passes for a driver that is suspended, enqueued, or off thread and not
  terminated; \<open>resumed\<close> is the driver the loop leaves in the slot. On a task that no
  longer runs, the drivers that are off thread and not terminated are closed: they
  leave their slots and are marked terminated.
\<close>

definition passesResumeCheck :: "Driver \<Rightarrow> bool" where
  "passesResumeCheck d =
     (suspended (state d) \<or> isEnqueued (state d)
      \<or> (\<not> onThread (state d) \<and> \<not> isTerminated (state d)))"

definition resumed :: "64 word \<Rightarrow> Task \<Rightarrow> Driver \<Rightarrow> Driver" where
  "resumed now t d = (case resumeDriver now t d of Inr d' \<Rightarrow> d' | Inl e \<Rightarrow> d)"

definition offThreadAlive :: "Driver \<Rightarrow> bool" where
  "offThreadAlive d = (\<not> onThread (state d) \<and> \<not> isTerminated (state d))"

definition closedByResume :: "Driver option list \<Rightarrow> Driver list" where
  "closedByResume slots =
     concat (map (\<lambda>slot. case slot of
                            Some d \<Rightarrow>
                              if offThreadAlive d
                              then [d\<lparr>state := setThread ((state d)\<lparr>isTerminated := True\<rparr>)\<rparr>]
                              else []
                          | None \<Rightarrow> [])
                 slots)"

definition slotAfterResume :: "Driver option \<Rightarrow> Driver option" where
  "slotAfterResume slot =
     (case slot of Some d \<Rightarrow> if offThreadAlive d then None else Some d | None \<Rightarrow> None)"

text \<open>
  What \<^verbatim>\<open>reclaimTask\<close> hands to its scope guard: the result or the exception of the
  body, the task and the events so far.
\<close>

definition reclaimBody :: "reclaimEnv \<Rightarrow> Task \<Rightarrow> (error + nat) \<times> Task \<times> event list" where
  "reclaimBody env t =
     (case requestPause t of
        (future, t1, evs1) \<Rightarrow>
          (let t2 = duringWait env t1
           in if \<not> (numThreads t = 0 \<or> waitEnds env = Satisfied)
              then (Inl (VeloxRuntimeError ''Memory reclaim failed to wait for task to pause''),
                    t2, evs1)
              else if isCancelled env t2 then (Inr 0, t2, evs1)
              else
                (case poolReclaim env of
                   Inr reclaimedBytes \<Rightarrow> (Inr reclaimedBytes, t2, evs1)
                 | Inl msg \<Rightarrow>
                     (case setError (nowMs env) (Some msg) t2 of
                        (err, t3, evs3) \<Rightarrow>
                          (case err of
                             Some e \<Rightarrow> (Inl e, t3, evs1 @ evs3)
                           | None \<Rightarrow> (Inl (Rethrown msg), t3, evs1 @ evs3))))))"

section \<open>Example states\<close>

definition exampleDriver :: Driver where
  "exampleDriver =
     \<lparr>driverId = 0,
      state = \<lparr>onThread = False, isTerminated = False, isEnqueued = False,
               hasBlockingFuture = False, numSuspensions = 0, endExecTimeMs = 0,
               totalPauseTimeMs = 0\<rparr>,
      inBarrier = False\<rparr>"

definition exampleSplitsState :: SplitsState where
  "exampleSplitsState =
     \<lparr>sourceIsTableScan = True, groupSplitsStores = [], nodeNoMoreSplits = False,
      maxSequenceId = - 1\<rparr>"

text \<open>
  A running task in serial mode with one table scan leaf \<open>''0''\<close>, one pipeline with
  one driver, and nothing queued.
\<close>

definition exampleTask :: Task where
  "exampleTask =
     \<lparr>taskState = kRunning, exception = None, mode = kSerial,
      firstNodeNotSupportingBarrier = None, isGroupedExecution = False,
      leafPlanNodeIds = [''0''],
      driverFactories = [\<lparr>numDrivers = 1, outputDriver = True\<rparr>],
      createDriversFor = (\<lambda>g. []),
      isExecutorSupplied = False, onError = False,
      splitsStates = [(''0'', exampleSplitsState)],
      exchangeClientByPlanNode = [],
      taskStats = \<lparr>numTotalSplits = 0, numQueuedSplits = 0, numRunningSplits = 0,
                   numFinishedSplits = 0, numQueuedTableScanSplits = 0,
                   numRunningTableScanSplits = 0, queuedTableScanSplitWeights = 0,
                   runningTableScanSplitWeights = 0, firstSplitStartTimeMs = 0,
                   lastSplitStartTimeMs = 0, executionEndTimeMs = 0, terminationTimeMs = 0,
                   endTimeMs = 0, numBarriers = 0, completedSplitGroups = [],
                   memoryReclaimCount = 0, memoryReclaimMs = 0\<rparr>,
      preloadingSplits = {},
      seenSplitGroups = [], queuedSplitGroups = [], numRunningSplitGroups = 0,
      concurrentSplitGroups = 1, numDriversPerSplitGroup = 0, numDriversUngrouped = 1,
      drivers = [Some exampleDriver],
      numRunningDrivers = 1, numFinishedDrivers = 0, numTotalDrivers = 1,
      numFinishedOutputDriversUngrouped = 0, numDriversInPartitionedOutput = 0,
      partitionedOutputConsumed = False, numThreads = 0,
      pauseRequested = False, terminateRequested = False, cancellationRequested = False,
      barrierRequested = False, barrierStartUs = 0, numDriversUnderBarrier = 0,
      barrierFinishPromises = [], resumePromises = [], threadFinishPromises = [],
      taskCompletionPromises = [], stateChangePromises = [], promiseCounter = 0\<rparr>"

definition dataSplit :: "nat \<Rightarrow> bool option \<Rightarrow> Split" where
  "dataSplit a ds =
     \<lparr>connectorSplit = Some \<lparr>addr = a, splitWeight = 1, dataSource = ds, remoteTaskId = None\<rparr>,
      groupId = kUngroupedGroupId, barrier = False\<rparr>"


text \<open>
  The example task after \<^verbatim>\<open>startBarrier\<close> at time 10: the barrier split is queued
  on the leaf, the driver is under the barrier, promise 0 waits for the round to end.
\<close>

definition exampleTaskUnderBarrier :: Task where
  "exampleTaskUnderBarrier =
     exampleTask
       \<lparr>splitsStates :=
          [(''0'', exampleSplitsState
              \<lparr>groupSplitsStores :=
                 [(kUngroupedGroupId,
                   \<lparr>splits = [createBarrier], noMoreSplits = False, splitPromises = []\<rparr>)]\<rparr>)],
        taskStats := (taskStats exampleTask)\<lparr>numBarriers := 1\<rparr>,
        drivers := [Some (exampleDriver\<lparr>inBarrier := True\<rparr>)],
        barrierRequested := True, barrierStartUs := 10, numDriversUnderBarrier := 1,
        barrierFinishPromises := [0], promiseCounter := 1\<rparr>"

text \<open>
  A running ungrouped task with two pipelines of one driver each: the driver of the
  output pipeline has finished and was closed, the driver of the other pipeline still
  runs.
\<close>

definition exampleTaskOutputFinished :: Task where
  "exampleTaskOutputFinished =
     exampleTask
       \<lparr>driverFactories :=
          [\<lparr>numDrivers = 1, outputDriver = True\<rparr>, \<lparr>numDrivers = 1, outputDriver = False\<rparr>],
        numDriversUngrouped := 2,
        drivers := [None, Some (exampleDriver\<lparr>driverId := 1\<rparr>)],
        numRunningDrivers := 1, numFinishedDrivers := 1, numTotalDrivers := 2,
        numFinishedOutputDriversUngrouped := 1\<rparr>"

text \<open>
  Drivers for the statements about \<^verbatim>\<open>Task::resume\<close>: one that waits on a blocking
  future, one that is on thread and terminated, and one that is on thread and not
  terminated.
\<close>

definition exampleBlockedDriver :: Driver where
  "exampleBlockedDriver = exampleDriver\<lparr>state := (state exampleDriver)\<lparr>hasBlockingFuture := True\<rparr>\<rparr>"

definition exampleTerminatedDriver :: Driver where
  "exampleTerminatedDriver =
     exampleDriver\<lparr>driverId := 1,
                   state := (state exampleDriver)\<lparr>onThread := True, isTerminated := True\<rparr>\<rparr>"

definition exampleOnThreadDriver :: Driver where
  "exampleOnThreadDriver = exampleDriver\<lparr>state := (state exampleDriver)\<lparr>onThread := True\<rparr>\<rparr>"

text \<open>
  Surroundings of a reclaim call: the reclaimer has its task and is called for the pool
  of the task, a wait for running threads times out, nobody else touches the task, the
  task is not cancelled, and the reclaim of the pool tree throws.
\<close>

definition exampleEnv :: reclaimEnv where
  "exampleEnv =
     \<lparr>taskAlive = True, poolNameMatches = True, waitEnds = TimedOut, duringWait = (\<lambda>t. t),
      isCancelled = (\<lambda>t. False), poolReclaim = Inl ''out of memory'', nowMs = 7,
      resumeMs = 100, reclaimTimeUs = 2000\<rparr>"


section \<open>Handing out splits: the preload loop\<close>

subsection \<open>Writing a shared data source\<close>

lemma isBarrier_setDataSource [simp]: "isBarrier (setDataSource a v s) = isBarrier s"
  by (simp add: setDataSource_def isBarrier_def split: option.splits)

lemma derefOk_setDataSource [simp]: "derefOk (setDataSource a v s) = derefOk s"
  by (simp add: setDataSource_def derefOk_def isBarrier_def split: option.splits)

lemma withoutDataSource_setDataSource [simp]:
  "withoutDataSource (setDataSource a v s) = withoutDataSource s"
  by (simp add: setDataSource_def withoutDataSource_def split: option.splits)

lemma splitAddrs_setDataSource [simp]:
  "splitAddrs (map (setDataSource a v) q) = splitAddrs q"
  by (induction q) (auto simp: splitAddrs_def setDataSource_def split: option.splits)





subsection \<open>The loop on any queue\<close>

text \<open>
  The loop fails only on a null dereference. It leaves the queue as it is up to data
  sources, and its index is the one it started with or an index of the queue.
\<close>

lemma preloadLoop_shape:
  assumes "\<forall>k. i \<le> k \<and> k < length q \<and> int k < m \<longrightarrow> derefOk (q ! k)"
  shows "\<exists>q' r' P' ws. preloadLoop preload m i q r P c = Inr (q', r', P', ws)
     \<and> map withoutDataSource q' = map withoutDataSource q
     \<and> (r' = r \<or> (0 \<le> r' \<and> nat r' < length q))"
  using assms
proof (induction preload m i q r P c rule: preloadLoop.induct)
  case (1 preload m i q r P c)
  show ?case
  proof (cases "i < length q \<and> int i < m")
    case False
    have "preloadLoop preload m i q r P c = Inr (q, r, P, c)"
      by (subst preloadLoop.simps) (simp only: False if_False)
    then show ?thesis by simp
  next
    case True
    then have il: "i < length q" by simp
    let ?x = "q ! i"
    have ok: "derefOk ?x" using "1.prems" True by simp
    have rest: "\<forall>k. Suc i \<le> k \<and> k < length q \<and> int k < m \<longrightarrow> derefOk (q ! k)"
      using "1.prems" by simp
    show ?thesis
    proof (cases "isBarrier ?x")
      case bar: True
      from "1.IH"(1) [OF True bar rest] True bar show ?thesis
        by (subst preloadLoop.simps) simp
    next
      case nobar: False
      then obtain cs where cs: "connectorSplit ?x = Some cs"
        using ok by (auto simp: derefOk_def)
      show ?thesis
      proof (cases "dataSource cs")
        case None
        let ?q = "map (setDataSource (addr cs) (preload cs)) q"
        have rest': "\<forall>k. Suc i \<le> k \<and> k < length ?q \<and> int k < m \<longrightarrow> derefOk (?q ! k)"
          using rest by simp
        have w: "map withoutDataSource ?q = map withoutDataSource q" by simp
        from "1.IH"(2) [OF True nobar cs None rest']
        obtain q' r' P' ws where
          a: "preloadLoop preload m (Suc i) ?q r (insert (addr cs) P) (c @ [(addr cs, preload cs)])
                = Inr (q', r', P', ws)"
          and b: "map withoutDataSource q' = map withoutDataSource ?q"
          and c: "r' = r \<or> (0 \<le> r' \<and> nat r' < length ?q)"
          by blast
        from b w have b': "map withoutDataSource q' = map withoutDataSource q" by simp
        from c have c': "r' = r \<or> (0 \<le> r' \<and> nat r' < length q)" by simp
        have "preloadLoop preload m i q r P c = Inr (q', r', P', ws)"
          using True nobar cs None a by (subst preloadLoop.simps) simp
        with b' c' show ?thesis by blast
      next
        case (Some hv)
        show ?thesis
        proof (cases "r = - 1 \<and> hv")
          case rdy: True
          from "1.IH"(3) [OF True nobar cs Some rdy rest]
          obtain q' r' P' ws where
            a: "preloadLoop preload m (Suc i) q (int i) (P - {addr cs}) c = Inr (q', r', P', ws)"
            and b: "map withoutDataSource q' = map withoutDataSource q"
            and c: "r' = int i \<or> (0 \<le> r' \<and> nat r' < length q)"
            by blast
          from c il have "0 \<le> r' \<and> nat r' < length q" by auto
          with a b True nobar cs Some rdy show ?thesis
            by (subst preloadLoop.simps) simp
        next
          case nrdy: False
          have e: "preloadLoop preload m i q r P c = preloadLoop preload m (Suc i) q r P c"
            using True nobar cs Some nrdy by (subst preloadLoop.simps) auto
          from "1.IH"(4) [OF True nobar cs Some nrdy rest] show ?thesis
            unfolding e .
        qed
      qed
    qed
  qed
qed


subsection \<open>The loop on a queue that shares no object\<close>




lemma firstReadyIndex_Some:
  "firstReadyIndex xs = Some k \<Longrightarrow> k < length xs \<and> isReady (xs ! k) \<and> (\<forall>j<k. \<not> isReady (xs ! j))"
proof (induction xs arbitrary: k)
  case Nil
  then show ?case by simp
next
  case (Cons x xs)
  show ?case
  proof (cases "isReady x")
    case True
    with Cons.prems show ?thesis by simp
  next
    case False
    with Cons.prems obtain k' where k': "firstReadyIndex xs = Some k'" "k = Suc k'"
      by auto
    from Cons.IH [OF k'(1)] False k'(2) show ?thesis
      by (auto simp: less_Suc_eq_0_disj)
  qed
qed




lemma readyIndex_less: "q \<noteq> [] \<Longrightarrow> readyIndex m q < length q"
  by (auto simp: readyIndex_def split: option.splits dest!: firstReadyIndex_Some)

lemma eraseAt_map: "eraseAt (map f xs) k = map f (eraseAt xs k)"
  by (simp add: eraseAt_def take_map drop_map)

lemma window_derefOk:
  assumes ok: "list_all derefOk (take (nat m) q)"
  shows "\<forall>k. 0 \<le> k \<and> k < length q \<and> int k < m \<longrightarrow> derefOk (q ! k)"
proof (intro allI impI)
  fix k :: nat assume a: "0 \<le> k \<and> k < length q \<and> int k < m"
  then have "k < nat m" by linarith
  then have "k < length (take (nat m) q)" using a by simp
  with ok have "derefOk (take (nat m) q ! k)" by (simp add: list_all_length)
  then show "derefOk (q ! k)" using \<open>k < nat m\<close> by simp
qed

text \<open>
  \<^verbatim>\<open>getSplitLocked\<close> on any non-empty queue: the split handed out is one of the
  queued splits, up to its data source, and the other splits stay queued in their order.
\<close>

lemma getSplitLocked_shape:
  assumes ne: "splits store \<noteq> []"
    and ok: "list_all derefOk (take (nat m) (splits store))"
  shows "\<exists>s store' t' calls k.
     getSplitLocked preload now t ft store m = Inr (s, store', t', calls)
     \<and> k < length (splits store)
     \<and> withoutDataSource s = withoutDataSource (splits store ! k)
     \<and> map withoutDataSource (splits store') = eraseAt (map withoutDataSource (splits store)) k
     \<and> splitPromises store' = splitPromises store
     \<and> noMoreSplits store' = noMoreSplits store"
proof -
  let ?q = "splits store"
  have "\<exists>q' r' P' ws.
      (if 0 < m then preloadLoop preload m 0 ?q (- 1) (preloadingSplits t) []
       else Inr (?q, - 1, preloadingSplits t, [])) = Inr (q', r', P', ws)
      \<and> map withoutDataSource q' = map withoutDataSource ?q
      \<and> (r' = - 1 \<or> (0 \<le> r' \<and> nat r' < length ?q))"
  proof (cases "0 < m")
    case True
    from preloadLoop_shape [OF window_derefOk [OF ok], of preload "- 1" "preloadingSplits t" "[]"]
      True show ?thesis by simp
  next
    case False
    then show ?thesis by simp
  qed
  then obtain q' r' P' ws where
    l: "(if 0 < m then preloadLoop preload m 0 ?q (- 1) (preloadingSplits t) []
       else Inr (?q, - 1, preloadingSplits t, [])) = Inr (q', r', P', ws)"
    and w: "map withoutDataSource q' = map withoutDataSource ?q"
    and r: "r' = - 1 \<or> (0 \<le> r' \<and> nat r' < length ?q)"
    by blast
  define k where "k = nat (if r' = - 1 then 0 else r')"
  from w have len: "length q' = length ?q" by (rule map_eq_imp_length_eq)
  with ne have ne': "q' \<noteq> []" by auto
  have kl: "k < length ?q" using r ne by (auto simp: k_def)
  have "withoutDataSource (q' ! k) = map withoutDataSource q' ! k"
    using kl len by simp
  also have "\<dots> = withoutDataSource (?q ! k)" using kl by (simp add: w)
  finally have wk: "withoutDataSource (q' ! k) = withoutDataSource (?q ! k)" .
  have er: "map withoutDataSource (eraseAt q' k) = eraseAt (map withoutDataSource ?q) k"
    by (simp add: eraseAt_map [symmetric] w)
  have res: "getSplitLocked preload now t ft store m =
      Inr (q' ! k, store\<lparr>splits := eraseAt q' k\<rparr>,
           (writeDataSources ws t)\<lparr>preloadingSplits := P',
              taskStats := startSplitStats ft (q' ! k) now (taskStats (writeDataSources ws t))\<rparr>,
           map (\<lambda>(a, v). PreloadCall a) ws)"
    unfolding getSplitLocked_def l using ne' by (simp add: Let_def k_def)
  show ?thesis
    apply (rule exI [of _ "q' ! k"])
    apply (rule exI [of _ "store\<lparr>splits := eraseAt q' k\<rparr>"])
    apply (rule exI [of _ "(writeDataSources ws t)\<lparr>preloadingSplits := P',
              taskStats := startSplitStats ft (q' ! k) now (taskStats (writeDataSources ws t))\<rparr>"])
    apply (rule exI [of _ "map (\<lambda>(a, v). PreloadCall a) ws"])
    apply (rule exI [of _ k])
    using res kl wk er by simp
qed


subsection \<open>Two queues that share an object\<close>

text \<open>
  A queue that holds one connector split object twice, with a window of two: the
  callback is called once, and the entry left behind has the data source that the call
  has set.
\<close>

lemma getSplitLocked_shared_once:
  "\<exists>t'. getSplitLocked (\<lambda>cs. Some False) 5 exampleTask True
       \<lparr>splits = [dataSplit 4 None, dataSplit 4 None], noMoreSplits = False, splitPromises = []\<rparr> 2
     = Inr (dataSplit 4 (Some False),
            \<lparr>splits = [dataSplit 4 (Some False)], noMoreSplits = False, splitPromises = []\<rparr>,
            t', [PreloadCall 4])"
proof -
  have "preloadLoop (\<lambda>cs. Some False) 2 0 [dataSplit 4 None, dataSplit 4 None] (- 1)
        (preloadingSplits exampleTask) []
      = Inr ([dataSplit 4 (Some False), dataSplit 4 (Some False)], - 1,
             insert 4 (preloadingSplits exampleTask), [(4, Some False)])"
    by (simp add: preloadLoop.simps [of _ _ 0] preloadLoop.simps [of _ _ "Suc 0"]
        preloadLoop.simps [of _ _ "Suc (Suc 0)"] dataSplit_def isBarrier_def setDataSource_def)
  then show ?thesis
    by (simp add: getSplitLocked_def Let_def eraseAt_def)
qed

text \<open>
  With a callback whose data source has its value at once, the second entry of the
  shared object is ready when the loop reaches it, and is handed out before the head.
\<close>

lemma getSplitLocked_shared_ready:
  "\<exists>t'. getSplitLocked (\<lambda>cs. Some True) 5 exampleTask True
       \<lparr>splits = [dataSplit 3 None, dataSplit 4 None, dataSplit 4 None], noMoreSplits = False,
        splitPromises = []\<rparr> 3
     = Inr (dataSplit 4 (Some True),
            \<lparr>splits = [dataSplit 3 (Some True), dataSplit 4 (Some True)], noMoreSplits = False,
             splitPromises = []\<rparr>,
            t', [PreloadCall 3, PreloadCall 4])"
proof -
  have "preloadLoop (\<lambda>cs. Some True) 3 0 [dataSplit 3 None, dataSplit 4 None, dataSplit 4 None] (- 1)
        (preloadingSplits exampleTask) []
      = Inr ([dataSplit 3 (Some True), dataSplit 4 (Some True), dataSplit 4 (Some True)], 2,
             insert 4 (insert 3 (preloadingSplits exampleTask)) - {4},
             [(3, Some True), (4, Some True)])"
    by (simp add: preloadLoop.simps [of _ _ 0] preloadLoop.simps [of _ _ "Suc 0"]
        preloadLoop.simps [of _ _ "Suc (Suc 0)"] preloadLoop.simps [of _ _ "Suc (Suc (Suc 0))"]
        dataSplit_def isBarrier_def setDataSource_def)
  then show ?thesis
    by (simp add: getSplitLocked_def Let_def eraseAt_def)
qed


section \<open>Claim C5: what getSplitOrFuture returns\<close>

text \<open>
  Claim C5 (as amended). A call of \<^verbatim>\<open>getSplitOrFutureLocked\<close> on a store does one of
  three things. On an empty queue with \<open>noMoreSplits\<close> set it returns
  \<open>kNotBlocked\<close> and touches neither the store, the task nor the caller's split and
  future: no split is assigned. On an empty queue without \<open>noMoreSplits\<close> it returns
  \<open>kWaitForSplit\<close> with the future of a new promise, which it appends to the waiter
  list of the store; the queue stays empty. On a non-empty queue, provided that every
  split inside the preload window is a barrier or has a connector split (the loop
  dereferences a null pointer otherwise), it returns \<open>kNotBlocked\<close> and assigns the
  caller one of the queued splits, with the data source that preloading may have set;
  the other splits stay queued in their order, and the future and the waiter list are
  left alone. Whenever the call returns, the answer is \<open>kWaitForSplit\<close> exactly
  when the queue is empty and \<open>noMoreSplits\<close> is false.
\<close>

theorem getSplitOrFutureLocked_cases:
  shows
  "(splits store = [] \<and> noMoreSplits store \<longrightarrow>
      getSplitOrFutureLocked preload now t forTableScan store split future m =
        Inr (\<lparr>blockingReason = kNotBlocked, splitOut = split, futureOut = future\<rparr>, store, t, []))
   \<and> (splits store = [] \<and> \<not> noMoreSplits store \<longrightarrow>
      getSplitOrFutureLocked preload now t forTableScan store split future m =
        Inr (\<lparr>blockingReason = kWaitForSplit, splitOut = split, futureOut = Some (promiseCounter t)\<rparr>,
             store\<lparr>splitPromises := splitPromises store @ [promiseCounter t]\<rparr>,
             t\<lparr>promiseCounter := Suc (promiseCounter t)\<rparr>, []))
   \<and> (splits store \<noteq> [] \<and> list_all derefOk (take (nat m) (splits store)) \<longrightarrow>
      (\<exists>s store' t' calls k.
        getSplitOrFutureLocked preload now t forTableScan store split future m =
          Inr (\<lparr>blockingReason = kNotBlocked, splitOut = s, futureOut = future\<rparr>, store', t', calls)
        \<and> k < length (splits store)
        \<and> withoutDataSource s = withoutDataSource (splits store ! k)
        \<and> map withoutDataSource (splits store') = eraseAt (map withoutDataSource (splits store)) k
        \<and> splitPromises store' = splitPromises store
        \<and> noMoreSplits store' = noMoreSplits store))
   \<and> (\<forall>r store' t' calls.
        getSplitOrFutureLocked preload now t forTableScan store split future m = Inr (r, store', t', calls)
        \<longrightarrow> (blockingReason r = kWaitForSplit \<longleftrightarrow> splits store = [] \<and> \<not> noMoreSplits store))"
proof -
  have p1: "splits store = [] \<and> noMoreSplits store \<longrightarrow>
      getSplitOrFutureLocked preload now t forTableScan store split future m =
        Inr (\<lparr>blockingReason = kNotBlocked, splitOut = split, futureOut = future\<rparr>, store, t, [])"
    by (simp add: getSplitOrFutureLocked_def)
  have p2: "splits store = [] \<and> \<not> noMoreSplits store \<longrightarrow>
      getSplitOrFutureLocked preload now t forTableScan store split future m =
        Inr (\<lparr>blockingReason = kWaitForSplit, splitOut = split, futureOut = Some (promiseCounter t)\<rparr>,
             store\<lparr>splitPromises := splitPromises store @ [promiseCounter t]\<rparr>,
             t\<lparr>promiseCounter := Suc (promiseCounter t)\<rparr>, [])"
    by (simp add: getSplitOrFutureLocked_def)
  have p3: "splits store \<noteq> [] \<and> list_all derefOk (take (nat m) (splits store)) \<longrightarrow>
      (\<exists>s store' t' calls k.
        getSplitOrFutureLocked preload now t forTableScan store split future m =
          Inr (\<lparr>blockingReason = kNotBlocked, splitOut = s, futureOut = future\<rparr>, store', t', calls)
        \<and> k < length (splits store)
        \<and> withoutDataSource s = withoutDataSource (splits store ! k)
        \<and> map withoutDataSource (splits store') = eraseAt (map withoutDataSource (splits store)) k
        \<and> splitPromises store' = splitPromises store
        \<and> noMoreSplits store' = noMoreSplits store)"
  proof
    assume a: "splits store \<noteq> [] \<and> list_all derefOk (take (nat m) (splits store))"
    then have ne: "splits store \<noteq> []" and ok: "list_all derefOk (take (nat m) (splits store))"
      by simp_all
    from getSplitLocked_shape [OF ne ok, of preload now t forTableScan]
    obtain s store' t' calls k where
      g: "getSplitLocked preload now t forTableScan store m = Inr (s, store', t', calls)"
      and rest: "k < length (splits store)"
        "withoutDataSource s = withoutDataSource (splits store ! k)"
        "map withoutDataSource (splits store') = eraseAt (map withoutDataSource (splits store)) k"
        "splitPromises store' = splitPromises store"
        "noMoreSplits store' = noMoreSplits store"
      by blast
    from g ne have "getSplitOrFutureLocked preload now t forTableScan store split future m =
          Inr (\<lparr>blockingReason = kNotBlocked, splitOut = s, futureOut = future\<rparr>, store', t', calls)"
      by (simp add: getSplitOrFutureLocked_def)
    with rest show "\<exists>s store' t' calls k.
        getSplitOrFutureLocked preload now t forTableScan store split future m =
          Inr (\<lparr>blockingReason = kNotBlocked, splitOut = s, futureOut = future\<rparr>, store', t', calls)
        \<and> k < length (splits store)
        \<and> withoutDataSource s = withoutDataSource (splits store ! k)
        \<and> map withoutDataSource (splits store') = eraseAt (map withoutDataSource (splits store)) k
        \<and> splitPromises store' = splitPromises store
        \<and> noMoreSplits store' = noMoreSplits store"
      by blast
  qed
  have p4: "\<forall>r store' t' calls.
        getSplitOrFutureLocked preload now t forTableScan store split future m = Inr (r, store', t', calls)
        \<longrightarrow> (blockingReason r = kWaitForSplit \<longleftrightarrow> splits store = [] \<and> \<not> noMoreSplits store)"
  proof (intro allI impI)
    fix r store' t' calls
    assume e: "getSplitOrFutureLocked preload now t forTableScan store split future m = Inr (r, store', t', calls)"
    show "(blockingReason r = kWaitForSplit) = (splits store = [] \<and> \<not> noMoreSplits store)"
    proof (cases "splits store = []")
      case True
      with e show ?thesis
        by (cases "noMoreSplits store") (auto simp: getSplitOrFutureLocked_def)
    next
      case False
      with e show ?thesis
        by (auto simp: getSplitOrFutureLocked_def split: sum.splits)
    qed
  qed
  show ?thesis
    by (rule conjI [OF p1 conjI [OF p2 conjI [OF p3 p4]]])
qed

text \<open>
  The statement at two stores: a waiter is registered on an empty store that still
  expects splits, and a store of three splits hands one of them out.
\<close>

theorem getSplitOrFutureLocked_cases_witness:
  "getSplitOrFutureLocked (\<lambda>cs. Some False) 5 exampleTask True
      \<lparr>splits = [], noMoreSplits = False, splitPromises = [3]\<rparr> emptySplit None 2 =
     Inr (\<lparr>blockingReason = kWaitForSplit, splitOut = emptySplit, futureOut = Some 0\<rparr>,
          \<lparr>splits = [], noMoreSplits = False, splitPromises = [3, 0]\<rparr>,
          exampleTask\<lparr>promiseCounter := 1\<rparr>, [])
   \<and> list_all derefOk (take (nat 2) [dataSplit 4 None, dataSplit 7 (Some True), createBarrier])
   \<and> (\<exists>s store' t' calls.
        getSplitOrFutureLocked (\<lambda>cs. Some False) 5 exampleTask True
          \<lparr>splits = [dataSplit 4 None, dataSplit 7 (Some True), createBarrier], noMoreSplits = False,
           splitPromises = []\<rparr> emptySplit None 2 =
        Inr (\<lparr>blockingReason = kNotBlocked, splitOut = s, futureOut = None\<rparr>, store', t', calls)
        \<and> length (splits store') = 2 \<and> splitPromises store' = [] \<and> noMoreSplits store' = False)"
proof -
  let ?s1 = "\<lparr>splits = [], noMoreSplits = False, splitPromises = [3]\<rparr>"
  let ?s2 = "\<lparr>splits = [dataSplit 4 None, dataSplit 7 (Some True), createBarrier], noMoreSplits = False,
           splitPromises = []\<rparr>"
  have pc: "promiseCounter exampleTask = 0"
    by (simp add: exampleTask_def)
  have ok: "list_all derefOk (take (nat 2) [dataSplit 4 None, dataSplit 7 (Some True), createBarrier])"
    by (simp add: derefOk_def dataSplit_def createBarrier_def isBarrier_def)
  note th1 = getSplitOrFutureLocked_cases [of ?s1 "\<lambda>cs. Some False" 5 exampleTask True emptySplit None 2]
  note th2 = getSplitOrFutureLocked_cases [of ?s2 "\<lambda>cs. Some False" 5 exampleTask True emptySplit None 2]
  from th1 [THEN conjunct2, THEN conjunct1]
  have a: "getSplitOrFutureLocked (\<lambda>cs. Some False) 5 exampleTask True ?s1 emptySplit None 2 =
     Inr (\<lparr>blockingReason = kWaitForSplit, splitOut = emptySplit, futureOut = Some 0\<rparr>,
          \<lparr>splits = [], noMoreSplits = False, splitPromises = [3, 0]\<rparr>,
          exampleTask\<lparr>promiseCounter := 1\<rparr>, [])"
    by (simp add: pc)
  have prem: "splits ?s2 \<noteq> [] \<and> list_all derefOk (take (nat 2) (splits ?s2))"
    using ok by simp
  from th2 [THEN conjunct2, THEN conjunct2, THEN conjunct1, THEN mp, OF prem]
  obtain s store' t' calls k where
    g: "getSplitOrFutureLocked (\<lambda>cs. Some False) 5 exampleTask True ?s2 emptySplit None 2 =
        Inr (\<lparr>blockingReason = kNotBlocked, splitOut = s, futureOut = None\<rparr>, store', t', calls)"
    and k: "k < length (splits ?s2)"
    and q: "map withoutDataSource (splits store') = eraseAt (map withoutDataSource (splits ?s2)) k"
    and w0: "splitPromises store' = splitPromises ?s2" "noMoreSplits store' = noMoreSplits ?s2"
    by blast
  from w0 have w: "splitPromises store' = []" "noMoreSplits store' = False" by simp_all
  from q k have "length (map withoutDataSource (splits store')) = 2"
    by (simp add: eraseAt_def)
  then have l: "length (splits store') = 2" by simp
  from g l w have b: "\<exists>s store' t' calls.
        getSplitOrFutureLocked (\<lambda>cs. Some False) 5 exampleTask True ?s2 emptySplit None 2 =
        Inr (\<lparr>blockingReason = kNotBlocked, splitOut = s, futureOut = None\<rparr>, store', t', calls)
        \<and> length (splits store') = 2 \<and> splitPromises store' = [] \<and> noMoreSplits store' = False"
    by blast
  show ?thesis
    by (rule conjI [OF a conjI [OF ok b]])
qed

text \<open>
  Claim C5 as stated fails on an empty store that has seen \<open>noMoreSplits\<close>: the
  call answers \<open>kNotBlocked\<close>, and the caller's split is the default-constructed
  one it passed in.
\<close>

theorem getSplitOrFutureLocked_no_split_counterexample:
  "getSplitOrFutureLocked (\<lambda>cs. Some False) 5 exampleTask True
      \<lparr>splits = [], noMoreSplits = True, splitPromises = []\<rparr> emptySplit None 2 =
     Inr (\<lparr>blockingReason = kNotBlocked, splitOut = emptySplit, futureOut = None\<rparr>,
          \<lparr>splits = [], noMoreSplits = True, splitPromises = []\<rparr>, exampleTask, [])"
  by (simp add: getSplitOrFutureLocked_def)

section \<open>Claim C6: preloading and the order of splits\<close>




section \<open>Claim C7: the barrier round\<close>

subsection \<open>Frame lemmas\<close>







subsection \<open>Waiter promises stay allocated\<close>








subsection \<open>The leaf checks survive the barrier splits\<close>




subsection \<open>Steps of an open round\<close>












lemma exampleTask_sel:
  "taskState exampleTask = kRunning" "mode exampleTask = kSerial"
  "firstNodeNotSupportingBarrier exampleTask = None" "leafPlanNodeIds exampleTask = [''0'']"
  "splitsStates exampleTask = [(''0'', exampleSplitsState)]"
  "drivers exampleTask = [Some exampleDriver]" "barrierRequested exampleTask = False"
  "numDriversUnderBarrier exampleTask = 0" "barrierFinishPromises exampleTask = []"
  "promiseCounter exampleTask = 0" "numBarriers (taskStats exampleTask) = 0"
  "exception exampleTask = None" "pauseRequested exampleTask = False"
  "numThreads exampleTask = 0" "exchangeClientByPlanNode exampleTask = []"
  by (simp_all add: exampleTask_def)





section \<open>Claim C10: splits under a barrier\<close>

text \<open>
  Claim C10. While \<open>barrierRequested\<close> is set, \<^verbatim>\<open>addSplitLocked\<close> refuses every
  split that is no barrier with the error \<^verbatim>\<open>Can't add new split under barrier processing\<close>
  and leaves the task, and with it every split store, as it was; so do
  \<^verbatim>\<open>addSplit\<close> on a running task, and \<^verbatim>\<open>addSplitWithSequence\<close> when the
  sequence number is new. A barrier split is accepted exactly when the task supports
  barriers and the plan node is a table scan that has not received no-more-splits; it
  then goes to the ungrouped store of the node.
\<close>

theorem addSplit_under_barrier:
  "(barrierRequested t \<and> \<not> isBarrier split \<longrightarrow>
      addSplitLocked t planNodeId splitsState split =
        (Inl (VeloxRuntimeError ''Can't add new split under barrier processing''), t))
   \<and> (barrierRequested t \<and> \<not> isBarrier split \<and> isRunningLocked t
        \<and> map_of (splitsStates t) planNodeId = Some splitsState \<longrightarrow>
      addSplit t planNodeId split =
        (Inl (VeloxRuntimeError ''Can't add new split under barrier processing''), t, [])
      \<and> (maxSequenceId splitsState < sequenceId \<longrightarrow>
          addSplitWithSequence t planNodeId split sequenceId =
            (Inl (VeloxRuntimeError ''Can't add new split under barrier processing''), t, [])))
   \<and> (isBarrier split \<longrightarrow>
        ((\<exists>promise t'. addSplitLocked t planNodeId splitsState split = (Inr promise, t'))
          \<longleftrightarrow> ensureBarrierSupport t = None \<and> sourceIsTableScan splitsState
              \<and> \<not> nodeNoMoreSplits splitsState))
   \<and> (isBarrier split \<and> ensureBarrierSupport t = None \<and> sourceIsTableScan splitsState
        \<and> \<not> nodeNoMoreSplits splitsState \<longrightarrow>
        addSplitLocked t planNodeId splitsState split =
          addToGroupStore t planNodeId splitsState kUngroupedGroupId split)"
proof (intro conjI impI)
  assume "barrierRequested t \<and> \<not> isBarrier split"
  then show "addSplitLocked t planNodeId splitsState split =
        (Inl (VeloxRuntimeError ''Can't add new split under barrier processing''), t)"
    by (simp add: addSplitLocked_def)
next
  assume a: "barrierRequested t \<and> \<not> isBarrier split \<and> isRunningLocked t
        \<and> map_of (splitsStates t) planNodeId = Some splitsState"
  then have l: "addSplitLocked t planNodeId splitsState split =
        (Inl (VeloxRuntimeError ''Can't add new split under barrier processing''), t)"
    by (simp add: addSplitLocked_def)
  from a show "addSplit t planNodeId split =
        (Inl (VeloxRuntimeError ''Can't add new split under barrier processing''), t, [])"
    by (simp add: addSplit_def getPlanNodeSplitsStateLocked_def l)
  assume "maxSequenceId splitsState < sequenceId"
  with a show "addSplitWithSequence t planNodeId split sequenceId =
            (Inl (VeloxRuntimeError ''Can't add new split under barrier processing''), t, [])"
    by (simp add: addSplitWithSequence_def getPlanNodeSplitsStateLocked_def l)
next
  assume b: "isBarrier split"
  show "(\<exists>promise t'. addSplitLocked t planNodeId splitsState split = (Inr promise, t'))
          \<longleftrightarrow> ensureBarrierSupport t = None \<and> sourceIsTableScan splitsState
              \<and> \<not> nodeNoMoreSplits splitsState"
    using b
    by (cases "ensureBarrierSupport t")
      (auto simp: addSplitLocked_def addToGroupStore_def split: prod.splits)
next
  assume "isBarrier split \<and> ensureBarrierSupport t = None \<and> sourceIsTableScan splitsState
        \<and> \<not> nodeNoMoreSplits splitsState"
  then show "addSplitLocked t planNodeId splitsState split =
          addToGroupStore t planNodeId splitsState kUngroupedGroupId split"
    by (simp add: addSplitLocked_def)
qed


text \<open>
  The statement on the example task: under the barrier a data split is refused, and
  the barrier split itself was accepted on the table scan leaf.
\<close>

theorem addSplit_under_barrier_witness:
  "barrierRequested exampleTaskUnderBarrier \<and> \<not> isBarrier (dataSplit 4 None)
   \<and> isRunningLocked exampleTaskUnderBarrier
   \<and> map_of (splitsStates exampleTaskUnderBarrier) ''0'' =
       Some (exampleSplitsState
              \<lparr>groupSplitsStores :=
                 [(kUngroupedGroupId,
                   \<lparr>splits = [createBarrier], noMoreSplits = False, splitPromises = []\<rparr>)]\<rparr>)
   \<and> addSplit exampleTaskUnderBarrier ''0'' (dataSplit 4 None) =
       (Inl (VeloxRuntimeError ''Can't add new split under barrier processing''),
        exampleTaskUnderBarrier, [])
   \<and> isBarrier createBarrier \<and> ensureBarrierSupport exampleTask = None
   \<and> sourceIsTableScan exampleSplitsState \<and> \<not> nodeNoMoreSplits exampleSplitsState
   \<and> addSplitLocked exampleTask ''0'' exampleSplitsState createBarrier =
       (Inr None,
        exampleTask
          \<lparr>splitsStates :=
             [(''0'', exampleSplitsState
                 \<lparr>groupSplitsStores :=
                    [(kUngroupedGroupId,
                      \<lparr>splits = [createBarrier], noMoreSplits = False, splitPromises = []\<rparr>)]\<rparr>)]\<rparr>)"
proof -
  let ?ss = "exampleSplitsState
              \<lparr>groupSplitsStores :=
                 [(kUngroupedGroupId,
                   \<lparr>splits = [createBarrier], noMoreSplits = False, splitPromises = []\<rparr>)]\<rparr>"
  have 1: "barrierRequested exampleTaskUnderBarrier" "\<not> isBarrier (dataSplit 4 None)"
    "isRunningLocked exampleTaskUnderBarrier"
    "map_of (splitsStates exampleTaskUnderBarrier) ''0'' = Some ?ss"
    by (simp_all add: exampleTaskUnderBarrier_def isBarrier_def dataSplit_def isRunningLocked_def
        exampleTask_sel)
  have 2: "isBarrier createBarrier" "ensureBarrierSupport exampleTask = None"
    "sourceIsTableScan exampleSplitsState" "\<not> nodeNoMoreSplits exampleSplitsState"
    by (simp_all add: isBarrier_def createBarrier_def ensureBarrierSupport_def exampleTask_sel
        exampleSplitsState_def)
  have 3: "addSplit exampleTaskUnderBarrier ''0'' (dataSplit 4 None) =
       (Inl (VeloxRuntimeError ''Can't add new split under barrier processing''),
        exampleTaskUnderBarrier, [])"
    using addSplit_under_barrier [of exampleTaskUnderBarrier "dataSplit 4 None" "''0''" ?ss] 1
    by blast
  have "addSplitLocked exampleTask ''0'' exampleSplitsState createBarrier =
      addToGroupStore exampleTask ''0'' exampleSplitsState kUngroupedGroupId createBarrier"
    using addSplit_under_barrier [of exampleTask createBarrier "''0''" exampleSplitsState] 2
    by blast
  then have 4: "addSplitLocked exampleTask ''0'' exampleSplitsState createBarrier =
       (Inr None, exampleTask\<lparr>splitsStates := [(''0'', ?ss)]\<rparr>)"
    by (simp add: addToGroupStore_def addSplitToStoreLocked_def storeAt_def emptyStore_def
        putStore_def exampleSplitsState_def exampleTask_sel)
  show ?thesis
    by (intro conjI) (rule 1 2 3 4)+
qed

section \<open>Claim C1: sequence numbers of splits\<close>

lemma storeAt_update [simp]: "storeAt (AList.update g store stores) g = store"
  by (simp add: storeAt_def update_conv')

lemma map_of_putStore:
  "map_of (splitsStates (putStore t n ss g store)) n =
     Some (ss\<lparr>groupSplitsStores := AList.update g store (groupSplitsStores ss)\<rparr>)"
  by (simp add: putStore_def update_conv')

lemma addToGroupStore_result:
  "addToGroupStore t n ss g split = (r, t') \<Longrightarrow>
     r = Inr (fst (addSplitToStoreLocked (storeAt (groupSplitsStores ss) g) split))
     \<and> t' = putStore t n ss g (snd (addSplitToStoreLocked (storeAt (groupSplitsStores ss) g) split))"
  by (auto simp: addToGroupStore_def split: prod.splits)

lemma addSplitLocked_success:
  assumes "addSplitLocked t n ss split = (Inr p, t')"
  shows "\<exists>t''. t' = putStore t'' n ss (targetGroup split)
            (snd (addSplitToStoreLocked (storeAt (groupSplitsStores ss) (targetGroup split)) split))
         \<and> p = fst (addSplitToStoreLocked (storeAt (groupSplitsStores ss) (targetGroup split)) split)"
proof (cases "isBarrier split")
  case True
  with assms have "addToGroupStore t n ss kUngroupedGroupId split = (Inr p, t')"
    by (auto simp: addSplitLocked_def split: option.splits if_splits)
  from addToGroupStore_result [OF this] True show ?thesis
    by (auto simp: targetGroup_def)
next
  case False
  with assms obtain t2 where "addToGroupStore t2 n ss (groupId split) split = (Inr p, t')"
    by (auto simp: addSplitLocked_def Let_def hasGroup_def split: option.splits if_splits prod.splits)
  from addToGroupStore_result [OF this] False show ?thesis
    by (auto simp: targetGroup_def)
qed


lemma splits_addSplitToStoreLocked [simp]:
  "splits (snd (addSplitToStoreLocked store split)) = splits store @ [split]"
  by (simp add: addSplitToStoreLocked_def Let_def)

lemma addSplitLocked_plain:
  assumes "\<not> barrierRequested t" and "plainSplit split"
  shows "\<exists>stats. addSplitLocked t n ss split =
     (Inr (fst (addSplitToStoreLocked (storeAt (groupSplitsStores ss) kUngroupedGroupId) split)),
      putStore (t\<lparr>taskStats := stats\<rparr>) n ss kUngroupedGroupId
        (snd (addSplitToStoreLocked (storeAt (groupSplitsStores ss) kUngroupedGroupId) split)))"
  using assms
  by (cases "connectorSplit split")
    (auto simp: addSplitLocked_def plainSplit_def Let_def addToGroupStore_def split: prod.splits)

lemma addSplitWithSequence_drop:
  assumes "isRunningLocked t" and "map_of (splitsStates t) n = Some ss"
    and "sequenceId \<le> maxSequenceId ss"
  shows "addSplitWithSequence t n split sequenceId = (Inr False, t, [])"
  using assms by (simp add: addSplitWithSequence_def getPlanNodeSplitsStateLocked_def)

lemma addSplitWithSequence_plain_step:
  assumes run: "isRunningLocked t" and nb: "\<not> barrierRequested t"
    and node: "map_of (splitsStates t) n = Some ss"
    and plain: "plainSplit split" and new: "maxSequenceId ss < sequenceId"
  shows "\<exists>t' evs. addSplitWithSequence t n split sequenceId = (Inr True, t', evs)
      \<and> isRunningLocked t' \<and> \<not> barrierRequested t'
      \<and> map_of (splitsStates t') n =
          Some (ss\<lparr>groupSplitsStores := AList.update kUngroupedGroupId
                 (snd (addSplitToStoreLocked (storeAt (groupSplitsStores ss) kUngroupedGroupId) split))
                 (groupSplitsStores ss)\<rparr>)"
proof -
  let ?store = "snd (addSplitToStoreLocked (storeAt (groupSplitsStores ss) kUngroupedGroupId) split)"
  from addSplitLocked_plain [OF nb plain, of n ss] obtain stats where
    l: "addSplitLocked t n ss split =
     (Inr (fst (addSplitToStoreLocked (storeAt (groupSplitsStores ss) kUngroupedGroupId) split)),
      putStore (t\<lparr>taskStats := stats\<rparr>) n ss kUngroupedGroupId ?store)"
    by blast
  let ?t' = "putStore (t\<lparr>taskStats := stats\<rparr>) n ss kUngroupedGroupId ?store"
  have "addSplitWithSequence t n split sequenceId =
      (Inr True, ?t',
       promiseEvents (fst (addSplitToStoreLocked (storeAt (groupSplitsStores ss) kUngroupedGroupId) split))
         @ [OnAddSplit n])"
    using run node new by (simp add: addSplitWithSequence_def getPlanNodeSplitsStateLocked_def l)
  moreover have "isRunningLocked ?t'" using run by (simp add: isRunningLocked_def putStore_def)
  moreover have "\<not> barrierRequested ?t'" using nb by (simp add: putStore_def)
  moreover have "map_of (splitsStates ?t') n =
      Some (ss\<lparr>groupSplitsStores := AList.update kUngroupedGroupId ?store (groupSplitsStores ss)\<rparr>)"
    by (rule map_of_putStore)
  ultimately show ?thesis by blast
qed

lemma addSplitsWithSequence_plain:
  assumes "isRunningLocked t" and "\<not> barrierRequested t"
    and "map_of (splitsStates t) n = Some ss"
    and "list_all (\<lambda>c. plainSplit (fst c)) calls"
  shows "\<exists>t'. addSplitsWithSequence t n calls = (Inr (map (\<lambda>c. maxSequenceId ss < snd c) calls), t')
      \<and> queueOf t' n kUngroupedGroupId =
          queueOf t n kUngroupedGroupId @ map fst (filter (\<lambda>c. maxSequenceId ss < snd c) calls)"
  using assms
proof (induction calls arbitrary: t ss)
  case Nil
  then show ?case by simp
next
  case (Cons c calls)
  obtain split sequenceId where c: "c = (split, sequenceId)" by (cases c)
  from Cons.prems(4) c have plain: "plainSplit split" and rest: "list_all (\<lambda>c. plainSplit (fst c)) calls"
    by simp_all
  show ?case
  proof (cases "maxSequenceId ss < sequenceId")
    case False
    then have d: "addSplitWithSequence t n split sequenceId = (Inr False, t, [])"
      using Cons.prems by (intro addSplitWithSequence_drop) auto
    from Cons.IH [OF Cons.prems(1,2,3) rest] obtain t' where
      "addSplitsWithSequence t n calls = (Inr (map (\<lambda>c. maxSequenceId ss < snd c) calls), t')"
      "queueOf t' n kUngroupedGroupId =
          queueOf t n kUngroupedGroupId @ map fst (filter (\<lambda>c. maxSequenceId ss < snd c) calls)"
      by blast
    then show ?thesis
      using False c d by simp
  next
    case True
    let ?ss' = "ss\<lparr>groupSplitsStores := AList.update kUngroupedGroupId
                 (snd (addSplitToStoreLocked (storeAt (groupSplitsStores ss) kUngroupedGroupId) split))
                 (groupSplitsStores ss)\<rparr>"
    from addSplitWithSequence_plain_step [OF Cons.prems(1,2,3) plain True]
    obtain t1 evs where s: "addSplitWithSequence t n split sequenceId = (Inr True, t1, evs)"
      and r1: "isRunningLocked t1" and b1: "\<not> barrierRequested t1"
      and n1: "map_of (splitsStates t1) n = Some ?ss'"
      by blast
    from Cons.IH [OF r1 b1 n1 rest] obtain t' where
      a: "addSplitsWithSequence t1 n calls = (Inr (map (\<lambda>c. maxSequenceId ?ss' < snd c) calls), t')"
      and q: "queueOf t' n kUngroupedGroupId =
          queueOf t1 n kUngroupedGroupId @ map fst (filter (\<lambda>c. maxSequenceId ?ss' < snd c) calls)"
      by blast
    have q1: "queueOf t1 n kUngroupedGroupId = queueOf t n kUngroupedGroupId @ [split]"
      using n1 Cons.prems(3) by (simp add: queueOf_def)
    show ?thesis
      using True c s a q q1 by simp
  qed
qed

lemma setMaxSplitSequenceId_result:
  assumes "isRunningLocked t" and "map_of (splitsStates t) n = Some ss"
  shows "\<exists>t'. setMaxSplitSequenceId t n m = (None, t') \<and> isRunningLocked t'
      \<and> map_of (splitsStates t') n = Some (ss\<lparr>maxSequenceId := max (maxSequenceId ss) m\<rparr>)"
  using assms
  by (simp add: setMaxSplitSequenceId_def getPlanNodeSplitsStateLocked_def isRunningLocked_def
      update_conv')

lemma getSplitOrFuture_head:
  assumes node: "map_of (splitsStates t) n = Some ss"
    and q: "splits (storeAt (groupSplitsStores ss) g) = s # q'" and m: "m \<le> 0"
  shows "\<exists>t' . getSplitOrFuture preload now t g n split future m =
        (Inr \<lparr>blockingReason = kNotBlocked, splitOut = s, futureOut = future\<rparr>, t', [])
      \<and> map_of (splitsStates t') n =
          Some (ss\<lparr>groupSplitsStores := AList.update g
                  ((storeAt (groupSplitsStores ss) g)\<lparr>splits := q'\<rparr>) (groupSplitsStores ss)\<rparr>)"
proof -
  let ?store = "storeAt (groupSplitsStores ss) g"
  have "getSplitLocked preload now t (sourceIsTableScan ss) ?store m =
      Inr (s, ?store\<lparr>splits := q'\<rparr>,
           t\<lparr>preloadingSplits := preloadingSplits t,
             taskStats := startSplitStats (sourceIsTableScan ss) s now (taskStats t)\<rparr>, [])"
    using q m by (simp add: getSplitLocked_def Let_def eraseAt_def)
  then have "getSplitOrFutureLocked preload now t (sourceIsTableScan ss) ?store split future m =
      Inr (\<lparr>blockingReason = kNotBlocked, splitOut = s, futureOut = future\<rparr>, ?store\<lparr>splits := q'\<rparr>,
           t\<lparr>preloadingSplits := preloadingSplits t,
             taskStats := startSplitStats (sourceIsTableScan ss) s now (taskStats t)\<rparr>, [])"
    using q by (simp add: getSplitOrFutureLocked_def)
  then have "getSplitOrFuture preload now t g n split future m =
        (Inr \<lparr>blockingReason = kNotBlocked, splitOut = s, futureOut = future\<rparr>,
         putStore (t\<lparr>preloadingSplits := preloadingSplits t,
             taskStats := startSplitStats (sourceIsTableScan ss) s now (taskStats t)\<rparr>)
           n ss g (?store\<lparr>splits := q'\<rparr>), [])"
    using node by (simp add: getSplitOrFuture_def getPlanNodeSplitsStateLocked_def)
  then show ?thesis
    using map_of_putStore by blast
qed

lemma getSplits_fifo:
  assumes "map_of (splitsStates t) n = Some ss" and "length nows = length (queueOf t n g)"
    and "m \<le> 0"
  shows "\<exists>t'. getSplits preload nows t g n m = (Inr (map handedOut (queueOf t n g)), t')
      \<and> queueOf t' n g = []"
  using assms
proof (induction nows arbitrary: t ss)
  case Nil
  then show ?case by simp
next
  case (Cons now nows)
  from Cons.prems(1,2) obtain s q' where q: "splits (storeAt (groupSplitsStores ss) g) = s # q'"
    by (cases "splits (storeAt (groupSplitsStores ss) g)") (auto simp: queueOf_def)
  let ?ss' = "ss\<lparr>groupSplitsStores := AList.update g
                  ((storeAt (groupSplitsStores ss) g)\<lparr>splits := q'\<rparr>) (groupSplitsStores ss)\<rparr>"
  from getSplitOrFuture_head [OF Cons.prems(1) q Cons.prems(3), of preload now emptySplit None]
  obtain t1 where g1: "getSplitOrFuture preload now t g n emptySplit None m = (Inr (handedOut s), t1, [])"
    and n1: "map_of (splitsStates t1) n = Some ?ss'"
    by (auto simp: handedOut_def)
  have q1: "queueOf t1 n g = q'" using n1 by (simp add: queueOf_def)
  have q0: "queueOf t n g = s # q'" using Cons.prems(1) q by (simp add: queueOf_def)
  have "length nows = length (queueOf t1 n g)"
    using Cons.prems(2) q0 q1 by simp
  from Cons.IH [OF n1 this Cons.prems(3)] obtain t' where
    "getSplits preload nows t1 g n m = (Inr (map handedOut (queueOf t1 n g)), t')"
    "queueOf t' n g = []"
    by blast
  then show ?case
    using g1 q0 q1 by simp
qed

text \<open>
  Claim C1 (as amended). On a running task and a plan node that takes splits,
  \<^verbatim>\<open>addSplitWithSequence\<close> drops the split (it returns false and changes nothing)
  when \<open>sequenceId \<le> maxSequenceId\<close> of the node; whenever it returns, it returns
  true exactly when \<open>sequenceId > maxSequenceId\<close>, and then the split is at the back
  of the queue of its store and \<open>maxSequenceId\<close> is what it was. The function never
  writes \<open>maxSequenceId\<close>: of a sequence of calls with plain splits (on a task with no
  barrier outstanding) exactly those with a number above the \<open>maxSequenceId\<close> the node
  had at the start are queued, in the order of the calls, also when a number comes
  again. The splits of a queue are handed out by \<^verbatim>\<open>getSplitOrFuture\<close> (without
  preloading) one per call, in order, each once. Only \<^verbatim>\<open>setMaxSplitSequenceId\<close>
  raises \<open>maxSequenceId\<close>, to the larger of the old and the given value; after
  \<^verbatim>\<open>setMaxSplitSequenceId(m)\<close> every split with a number up to \<open>m\<close> is dropped.
\<close>

theorem addSplitWithSequence_dedup:
  assumes run: "isRunningLocked t"
    and node: "map_of (splitsStates t) planNodeId = Some splitsState"
  shows
   "(sequenceId \<le> maxSequenceId splitsState \<longrightarrow>
       addSplitWithSequence t planNodeId split sequenceId = (Inr False, t, []))
    \<and> (\<forall>added t' evs.
         addSplitWithSequence t planNodeId split sequenceId = (Inr added, t', evs) \<longrightarrow>
           (added \<longleftrightarrow> maxSequenceId splitsState < sequenceId)
         \<and> (added \<longrightarrow>
              queueOf t' planNodeId (targetGroup split) =
                queueOf t planNodeId (targetGroup split) @ [split]
            \<and> (\<exists>ss'. map_of (splitsStates t') planNodeId = Some ss'
                   \<and> maxSequenceId ss' = maxSequenceId splitsState)))
    \<and> (\<forall>calls :: (Split \<times> int) list. \<not> barrierRequested t \<and> list_all (\<lambda>c. plainSplit (fst c)) calls \<longrightarrow>
         (\<exists>t'. addSplitsWithSequence t planNodeId calls =
                 (Inr (map (\<lambda>c. maxSequenceId splitsState < snd c) calls), t')
              \<and> queueOf t' planNodeId kUngroupedGroupId =
                  queueOf t planNodeId kUngroupedGroupId
                    @ map fst (filter (\<lambda>c. maxSequenceId splitsState < snd c) calls)))
    \<and> (\<forall>nows preload g. length nows = length (queueOf t planNodeId g) \<longrightarrow>
         (\<exists>t'. getSplits preload nows t g planNodeId 0 =
                 (Inr (map handedOut (queueOf t planNodeId g)), t')
              \<and> queueOf t' planNodeId g = []))
    \<and> (\<forall>m. \<exists>t'. setMaxSplitSequenceId t planNodeId m = (None, t')
           \<and> map_of (splitsStates t') planNodeId =
               Some (splitsState\<lparr>maxSequenceId := max (maxSequenceId splitsState) m\<rparr>)
           \<and> (\<forall>s split'. s \<le> m \<longrightarrow>
                 addSplitWithSequence t' planNodeId split' s = (Inr False, t', [])))"
proof (intro conjI allI impI)
  assume "sequenceId \<le> maxSequenceId splitsState"
  with run node show "addSplitWithSequence t planNodeId split sequenceId = (Inr False, t, [])"
    by (rule addSplitWithSequence_drop)
next
  fix added t' evs
  assume a: "addSplitWithSequence t planNodeId split sequenceId = (Inr added, t', evs)"
  show "added \<longleftrightarrow> maxSequenceId splitsState < sequenceId"
    using a run node
    by (auto simp: addSplitWithSequence_def getPlanNodeSplitsStateLocked_def
        split: if_splits prod.splits sum.splits)
  assume added
  with a run node obtain p where l: "addSplitLocked t planNodeId splitsState split = (Inr p, t')"
    by (auto simp: addSplitWithSequence_def getPlanNodeSplitsStateLocked_def
        split: if_splits prod.splits sum.splits)
  from addSplitLocked_success [OF l] obtain t'' where
    t': "t' = putStore t'' planNodeId splitsState (targetGroup split)
            (snd (addSplitToStoreLocked (storeAt (groupSplitsStores splitsState) (targetGroup split)) split))"
    by blast
  have n': "map_of (splitsStates t') planNodeId =
      Some (splitsState\<lparr>groupSplitsStores := AList.update (targetGroup split)
        (snd (addSplitToStoreLocked (storeAt (groupSplitsStores splitsState) (targetGroup split)) split))
        (groupSplitsStores splitsState)\<rparr>)"
    unfolding t' by (rule map_of_putStore)
  then show "queueOf t' planNodeId (targetGroup split) =
                queueOf t planNodeId (targetGroup split) @ [split]"
    using node by (simp add: queueOf_def)
  from n' show "\<exists>ss'. map_of (splitsStates t') planNodeId = Some ss'
                   \<and> maxSequenceId ss' = maxSequenceId splitsState"
    by simp
next
  fix calls :: "(Split \<times> int) list"
  assume "\<not> barrierRequested t \<and> list_all (\<lambda>c. plainSplit (fst c)) calls"
  then show "\<exists>t'. addSplitsWithSequence t planNodeId calls =
                 (Inr (map (\<lambda>c. maxSequenceId splitsState < snd c) calls), t')
              \<and> queueOf t' planNodeId kUngroupedGroupId =
                  queueOf t planNodeId kUngroupedGroupId
                    @ map fst (filter (\<lambda>c. maxSequenceId splitsState < snd c) calls)"
    using addSplitsWithSequence_plain [OF run _ node] by blast
next
  fix nows :: "nat list" and preload g
  assume "length nows = length (queueOf t planNodeId g)"
  then show "\<exists>t'. getSplits preload nows t g planNodeId 0 =
                 (Inr (map handedOut (queueOf t planNodeId g)), t')
              \<and> queueOf t' planNodeId g = []"
    using getSplits_fifo [OF node, of nows g 0 preload] by simp
next
  fix m
  from setMaxSplitSequenceId_result [OF run node, of m] obtain t' where
    s: "setMaxSplitSequenceId t planNodeId m = (None, t')" and r': "isRunningLocked t'"
    and n': "map_of (splitsStates t') planNodeId =
        Some (splitsState\<lparr>maxSequenceId := max (maxSequenceId splitsState) m\<rparr>)"
    by blast
  have "addSplitWithSequence t' planNodeId split' s = (Inr False, t', [])" if "s \<le> m" for s split'
    using r' n' by (rule addSplitWithSequence_drop) (use that in simp)
  with s n' show "\<exists>t'. setMaxSplitSequenceId t planNodeId m = (None, t')
           \<and> map_of (splitsStates t') planNodeId =
               Some (splitsState\<lparr>maxSequenceId := max (maxSequenceId splitsState) m\<rparr>)
           \<and> (\<forall>s split'. s \<le> m \<longrightarrow>
                 addSplitWithSequence t' planNodeId split' s = (Inr False, t', []))"
    by blast
qed


lemma plainSplit_dataSplit [simp]: "plainSplit (dataSplit a None)"
  by (simp add: plainSplit_def dataSplit_def isBarrier_def hasGroup_def)

lemma exampleTask_node:
  "isRunningLocked exampleTask" "\<not> barrierRequested exampleTask"
  "map_of (splitsStates exampleTask) ''0'' = Some exampleSplitsState"
  "queueOf exampleTask ''0'' kUngroupedGroupId = []"
  "maxSequenceId exampleSplitsState = - 1"
  by (simp_all add: isRunningLocked_def exampleTask_sel queueOf_def storeAt_def emptyStore_def
      exampleSplitsState_def)

text \<open>
  The statement on the example task, whose leaf has \<open>maxSequenceId = -1\<close>: a split
  with sequence number \<open>-1\<close> is dropped; of three splits with the numbers 0, 3 and
  \<open>-1\<close> the first two are queued.
\<close>

theorem addSplitWithSequence_dedup_witness:
  "isRunningLocked exampleTask
   \<and> map_of (splitsStates exampleTask) ''0'' = Some exampleSplitsState
   \<and> addSplitWithSequence exampleTask ''0'' (dataSplit 4 None) (- 1) = (Inr False, exampleTask, [])
   \<and> (\<exists>t'. addSplitsWithSequence exampleTask ''0''
               [(dataSplit 4 None, 0), (dataSplit 5 None, 3), (dataSplit 6 None, - 1)] =
             (Inr [True, True, False], t')
          \<and> queueOf t' ''0'' kUngroupedGroupId = [dataSplit 4 None, dataSplit 5 None])"
proof -
  note d = addSplitWithSequence_dedup [OF exampleTask_node(1) exampleTask_node(3)]
  have 1: "addSplitWithSequence exampleTask ''0'' (dataSplit 4 None) (- 1) = (Inr False, exampleTask, [])"
    using d [of "- 1" "dataSplit 4 None"] by (simp add: exampleTask_node)
  let ?calls = "[(dataSplit 4 None, 0), (dataSplit 5 None, 3), (dataSplit 6 None, - 1)] :: (Split \<times> int) list"
  from d [of 0 emptySplit] have "\<not> barrierRequested exampleTask \<and> list_all (\<lambda>c. plainSplit (fst c)) ?calls \<longrightarrow>
         (\<exists>t'. addSplitsWithSequence exampleTask ''0'' ?calls =
                 (Inr (map (\<lambda>c. maxSequenceId exampleSplitsState < snd c) ?calls), t')
              \<and> queueOf t' ''0'' kUngroupedGroupId =
                  queueOf exampleTask ''0'' kUngroupedGroupId
                    @ map fst (filter (\<lambda>c. maxSequenceId exampleSplitsState < snd c) ?calls))"
    by blast
  then have 2: "\<exists>t'. addSplitsWithSequence exampleTask ''0'' ?calls = (Inr [True, True, False], t')
          \<and> queueOf t' ''0'' kUngroupedGroupId = [dataSplit 4 None, dataSplit 5 None]"
    by (simp add: exampleTask_node)
  show ?thesis
    by (intro conjI) (rule exampleTask_node 1 2)+
qed

text \<open>
  Claim C1 as stated fails where a sequence number comes twice:
  \<^verbatim>\<open>addSplitWithSequence\<close> compares with \<open>maxSequenceId\<close> and never writes it, so
  the second delivery of the split with number 5 is queued like the first, and the
  store holds the split twice.
\<close>

theorem addSplitWithSequence_duplicate_counterexample:
  "(case addSplitsWithSequence exampleTask ''0'' [(dataSplit 4 None, 5), (dataSplit 4 None, 5)] of
      (Inr bs, t') \<Rightarrow>
        bs = [True, True]
        \<and> queueOf t' ''0'' kUngroupedGroupId = [dataSplit 4 None, dataSplit 4 None]
    | (Inl e, t') \<Rightarrow> False)"
proof -
  let ?calls = "[(dataSplit 4 None, 5), (dataSplit 4 None, 5)] :: (Split \<times> int) list"
  have "list_all (\<lambda>c. plainSplit (fst c)) ?calls" by simp
  from addSplitsWithSequence_plain [OF exampleTask_node(1,2,3) this]
  obtain t' where "addSplitsWithSequence exampleTask ''0'' ?calls =
        (Inr (map (\<lambda>c. maxSequenceId exampleSplitsState < snd c) ?calls), t')"
    and "queueOf t' ''0'' kUngroupedGroupId =
          queueOf exampleTask ''0'' kUngroupedGroupId
            @ map fst (filter (\<lambda>c. maxSequenceId exampleSplitsState < snd c) ?calls)"
    by blast
  then show ?thesis
    by (simp add: exampleTask_node)
qed

section \<open>Terminating a task\<close>

subsection \<open>What the loops of terminate leave alone\<close>

lemma driverClosedLocked_frame:
  "driverClosedLocked t =
     t\<lparr>numRunningDrivers := numRunningDrivers (driverClosedLocked t),
       numFinishedDrivers := numFinishedDrivers (driverClosedLocked t)\<rparr>"
  by (simp add: driverClosedLocked_def Let_def)

lemma terminateDriversLoop_frame:
  "terminateDriversLoop i t acc = (t', ds) \<Longrightarrow>
     t' = t\<lparr>drivers := drivers t', numRunningDrivers := numRunningDrivers t',
            numFinishedDrivers := numFinishedDrivers t'\<rparr>"
proof (induction i t acc rule: terminateDriversLoop.induct)
  case (1 i t acc)
  show ?case
  proof (cases "i < length (drivers t)")
    case False
    with "1.prems" show ?thesis
      by (subst (asm) terminateDriversLoop.simps) simp
  next
    case True
    show ?thesis
    proof (cases "drivers t ! i")
      case None
      with "1.prems" True have "terminateDriversLoop (Suc i) t acc = (t', ds)"
        by (subst (asm) terminateDriversLoop.simps) simp
      from "1.IH"(1) [OF True None this] show ?thesis .
    next
      case (Some d)
      obtain reason s where e: "enterForTerminateLocked t (state d) = (reason, s)"
        by (cases "enterForTerminateLocked t (state d)")
      show ?thesis
      proof (cases "reason = kTerminate")
        case kt: True
        let ?t = "driverClosedLocked (t\<lparr>drivers := (drivers t)[i := None]\<rparr>)"
        from "1.prems" True Some e kt
        have "terminateDriversLoop (Suc i) ?t (acc @ [d\<lparr>state := s\<rparr>]) = (t', ds)"
          by (subst (asm) terminateDriversLoop.simps) simp
        from "1.IH"(2) [OF True Some e [symmetric] kt this]
        have "t' = ?t\<lparr>drivers := drivers t', numRunningDrivers := numRunningDrivers t',
            numFinishedDrivers := numFinishedDrivers t'\<rparr>" .
        then show ?thesis
          by (subst (asm) driverClosedLocked_frame) simp
      next
        case nk: False
        let ?t = "t\<lparr>drivers := (drivers t)[i := Some (d\<lparr>state := s\<rparr>)]\<rparr>"
        from "1.prems" True Some e nk
        have "terminateDriversLoop (Suc i) ?t acc = (t', ds)"
          by (subst (asm) terminateDriversLoop.simps) simp
        from "1.IH"(3) [OF True Some e [symmetric] nk this]
        show ?thesis by simp
      qed
    qed
  qed
qed

lemma getSplitLocked_frame:
  "getSplitLocked preload now t f store 0 = Inr (s, store', t', calls) \<Longrightarrow>
     t' = t\<lparr>preloadingSplits := preloadingSplits t', taskStats := taskStats t'\<rparr>"
  by (auto simp: getSplitLocked_def Let_def split: sum.splits if_splits prod.splits)

lemma drainStore_frame:
  "drainStore now f store t acc = (store', t', acc') \<Longrightarrow>
     t' = t\<lparr>preloadingSplits := preloadingSplits t', taskStats := taskStats t'\<rparr>"
proof (induction now f store t acc rule: drainStore.induct)
  case (1 now f store t acc)
  show ?case
  proof (cases "splits store \<noteq> []")
    case False
    with "1.prems" show ?thesis
      by (subst (asm) drainStore.simps) simp
  next
    case True
    show ?thesis
    proof (cases "getSplitLocked (\<lambda>cs. None) now t f store 0")
      case (Inl e)
      with "1.prems" True show ?thesis
        by (subst (asm) drainStore.simps) simp
    next
      case (Inr r)
      obtain s store1 t1 calls where r: "r = (s, store1, t1, calls)"
        by (metis prod_cases4)
      from "1.prems" True Inr r have "drainStore now f store1 t1 (acc @ [s]) = (store', t', acc')"
        by (subst (asm) drainStore.simps) simp
      from "1.IH" [OF True Inr [unfolded r] refl refl refl this]
      have "t' = t1\<lparr>preloadingSplits := preloadingSplits t', taskStats := taskStats t'\<rparr>" .
      moreover from getSplitLocked_frame [OF Inr [unfolded r]]
      have "t1 = t\<lparr>preloadingSplits := preloadingSplits t1, taskStats := taskStats t1\<rparr>" .
      ultimately have "t' = (t\<lparr>preloadingSplits := preloadingSplits t1, taskStats := taskStats t1\<rparr>)
          \<lparr>preloadingSplits := preloadingSplits t', taskStats := taskStats t'\<rparr>"
        by simp
      then show ?thesis by simp
    qed
  qed
qed

lemma drainStores_frame:
  "drainStores now f stores t acc = (stores', t', acc') \<Longrightarrow>
     t' = t\<lparr>preloadingSplits := preloadingSplits t', taskStats := taskStats t'\<rparr>"
proof (induction stores arbitrary: t acc stores' t' acc')
  case Nil
  then show ?case by simp
next
  case (Cons gs stores)
  obtain g store where gs: "gs = (g, store)" by (cases gs)
  obtain store1 t1 acc1 where d: "drainStore now f store t acc = (store1, t1, acc1)"
    by (metis prod_cases3)
  obtain rest' t2 acc2 where r: "drainStores now f stores t1 acc1 = (rest', t2, acc2)"
    by (metis prod_cases3)
  from Cons.prems gs d r have "t2 = t'" by simp
  with Cons.IH [OF r] have "t' = t1\<lparr>preloadingSplits := preloadingSplits t', taskStats := taskStats t'\<rparr>"
    by simp
  moreover from drainStore_frame [OF d]
  have "t1 = t\<lparr>preloadingSplits := preloadingSplits t1, taskStats := taskStats t1\<rparr>" .
  ultimately have "t' = (t\<lparr>preloadingSplits := preloadingSplits t1, taskStats := taskStats t1\<rparr>)
      \<lparr>preloadingSplits := preloadingSplits t', taskStats := taskStats t'\<rparr>"
    by simp
  then show ?case by simp
qed

lemma releaseSplitsStates_frame:
  "releaseSplitsStates now states t = (states', t', ps, remaining) \<Longrightarrow>
     t' = t\<lparr>preloadingSplits := preloadingSplits t', taskStats := taskStats t'\<rparr>"
proof (induction states arbitrary: t states' t' ps remaining)
  case Nil
  then show ?case by simp
next
  case (Cons ns states)
  obtain n ss where ns: "ns = (n, ss)" by (cases ns)
  obtain promises stores where tp: "takeStorePromises (groupSplitsStores ss) = (promises, stores)"
    by (cases "takeStorePromises (groupSplitsStores ss)")
  obtain stores1 t1 remote where d:
    "(if n \<in> set (exchangeClientByPlanNode t)
      then drainStores now (sourceIsTableScan ss) stores t []
      else (stores, t, [])) = (stores1, t1, remote)"
    by (metis prod_cases3)
  obtain rest' t2 ps2 rem2 where r: "releaseSplitsStates now states t1 = (rest', t2, ps2, rem2)"
    by (metis prod_cases4)
  from Cons.prems ns tp d r have "t2 = t'" by simp
  with Cons.IH [OF r] have a: "t' = t1\<lparr>preloadingSplits := preloadingSplits t', taskStats := taskStats t'\<rparr>"
    by simp
  have b: "t1 = t\<lparr>preloadingSplits := preloadingSplits t1, taskStats := taskStats t1\<rparr>"
  proof (cases "n \<in> set (exchangeClientByPlanNode t)")
    case True
    with d have "drainStores now (sourceIsTableScan ss) stores t [] = (stores1, t1, remote)" by simp
    then show ?thesis by (rule drainStores_frame)
  next
    case False
    with d show ?thesis by simp
  qed
  from a b have "t' = (t\<lparr>preloadingSplits := preloadingSplits t1, taskStats := taskStats t1\<rparr>)
      \<lparr>preloadingSplits := preloadingSplits t', taskStats := taskStats t'\<rparr>"
    by simp
  then show ?case by simp
qed

lemma makeFinishFutureLocked_result:
  "makeFinishFutureLocked t =
     (promiseCounter t,
      t\<lparr>promiseCounter := Suc (promiseCounter t),
        threadFinishPromises :=
          (if numThreads t = 0 then threadFinishPromises t
           else threadFinishPromises t @ [promiseCounter t])\<rparr>,
      if numThreads t = 0 then [SetValue (promiseCounter t)] else [])"
  by (simp add: makeFinishFutureLocked_def Let_def)

subsection \<open>The two ways through terminate\<close>

lemma terminate_not_running:
  assumes "\<not> isRunningLocked t"
  shows "terminate now s t =
     (Inr (promiseCounter t),
      t\<lparr>taskStats :=
          (if executionEndTimeMs (taskStats t) = 0
           then (taskStats t)\<lparr>executionEndTimeMs := now\<rparr> else taskStats t),
        promiseCounter := Suc (promiseCounter t),
        threadFinishPromises :=
          (if numThreads t = 0 then threadFinishPromises t
           else threadFinishPromises t @ [promiseCounter t])\<rparr>,
      if numThreads t = 0 then [SetValue (promiseCounter t)] else [])"
  using assms
  by (simp add: terminate_def Let_def isRunningLocked_def makeFinishFutureLocked_result)

lemma releaseSplitsStates_waiters:
  "releaseSplitsStates now states t = (states', t', ps, remaining) \<Longrightarrow>
     ps = concat (map (\<lambda>(planNodeId, splitsState).
                    concat (map (\<lambda>(g, store). splitPromises store) (groupSplitsStores splitsState)))
                 states)"
proof (induction states arbitrary: t states' t' ps remaining)
  case Nil
  then show ?case by simp
next
  case (Cons ns states)
  obtain n ss where ns: "ns = (n, ss)" by (cases ns)
  obtain promises stores where tp: "takeStorePromises (groupSplitsStores ss) = (promises, stores)"
    by (cases "takeStorePromises (groupSplitsStores ss)")
  obtain stores1 t1 remote where d:
    "(if n \<in> set (exchangeClientByPlanNode t)
      then drainStores now (sourceIsTableScan ss) stores t []
      else (stores, t, [])) = (stores1, t1, remote)"
    by (metis prod_cases3)
  obtain rest' t2 ps2 rem2 where r: "releaseSplitsStates now states t1 = (rest', t2, ps2, rem2)"
    by (metis prod_cases4)
  from Cons.prems ns tp d r have "ps = promises @ ps2" by simp
  moreover from tp have "promises = concat (map (\<lambda>(g, store). splitPromises store) (groupSplitsStores ss))"
    by (simp add: takeStorePromises_def)
  moreover note Cons.IH [OF r]
  ultimately show ?case using ns by simp
qed

lemma terminateDriversLoop_promises:
  assumes "terminateDriversLoop i t acc = (t', ds)"
  shows "barrierFinishPromises t' = barrierFinishPromises t"
    and "splitsStates t' = splitsStates t"
    and "taskState t' = taskState t"
    and "exception t' = exception t"
    and "numThreads t' = numThreads t"
    and "promiseCounter t' = promiseCounter t"
    and "taskCompletionPromises t' = taskCompletionPromises t"
    and "numDriversInPartitionedOutput t' = numDriversInPartitionedOutput t"
  by (subst terminateDriversLoop_frame [OF assms], simp)+

lemma releaseSplitsStates_fields:
  assumes "releaseSplitsStates now states t = (states', t', ps, remaining)"
  shows "taskState t' = taskState t"
    and "exception t' = exception t"
    and "numThreads t' = numThreads t"
    and "promiseCounter t' = promiseCounter t"
    and "taskCompletionPromises t' = taskCompletionPromises t"
    and "numRunningDrivers t' = numRunningDrivers t"
    and "numFinishedDrivers t' = numFinishedDrivers t"
    and "drivers t' = drivers t"
  by (subst releaseSplitsStates_frame [OF assms], simp)+

text \<open>
  A terminate call on a running task whose two checks pass: the result, the fields that
  the statements below read, and the events in their order.
\<close>

lemma terminate_running:
  assumes run: "isRunningLocked t"
    and tt: "terminationTimeMs (taskStats t) = 0"
    and cr: "s = kFinished \<or> \<not> cancellationRequested t"
  shows "\<exists>t' (offThreadDrivers :: Driver list) remote.
     terminate now s t =
       (Inr (promiseCounter t), t',
        map SetValue (taskCompletionPromises t)
        @ [OnTaskCompletion]
        @ map SetValue (stateChangePromises t)
        @ map (\<lambda>d. CloseByTask (driverId d)) offThreadDrivers
        @ (if hasPartitionedOutput t then [RemoveFromOutputBufferManager] else [])
        @ [CloseExchangeClients]
        @ remote
        @ map SetValue (storePromises t)
        @ [CancelJoinBridges, ClosePreloadingSplits]
        @ map SetValue (barrierFinishPromises t)
        @ (if numThreads t = 0 then [SetValue (promiseCounter t)] else []))
     \<and> (\<exists>remaining t7. remote = resendRemoteSplits t7 remaining)
     \<and> taskState t' = s
     \<and> exception t' = cancelMessage s (exception t)
     \<and> taskCompletionPromises t' = []
     \<and> promiseCounter t' = Suc (promiseCounter t)
     \<and> terminateRequested t'"
proof -
  let ?t0 = "if executionEndTimeMs (taskStats t) = 0
             then t\<lparr>taskStats := (taskStats t)\<lparr>executionEndTimeMs := now\<rparr>\<rparr> else t"
  let ?t1 = "?t0\<lparr>taskState := s\<rparr>"
  let ?t2 = "?t1\<lparr>taskStats := (taskStats ?t1)\<lparr>terminationTimeMs := now\<rparr>,
                 exception := cancelMessage s (exception ?t1)\<rparr>"
  let ?t3 = "?t2\<lparr>cancellationRequested := (s \<noteq> kFinished \<or> cancellationRequested ?t2),
                 taskCompletionPromises := [], stateChangePromises := [],
                 numTotalDrivers :=
                   of_nat (length (seenSplitGroups ?t2)) * numDriversPerSplitGroup ?t2
                     + numDriversUngrouped ?t2,
                 terminateRequested := True, numRunningDrivers := 0\<rparr>"
  obtain t4 off where l: "terminateDriversLoop 0 ?t3 [] = (t4, off)"
    by (cases "terminateDriversLoop 0 ?t3 []")
  let ?t5 = "t4\<lparr>barrierFinishPromises := []\<rparr>"
  obtain states t6 waiters remaining
    where r: "releaseSplitsStates now (splitsStates ?t5) ?t5 = (states, t6, waiters, remaining)"
    by (metis prod_cases4)
  let ?t8 = "t6\<lparr>splitsStates := states, preloadingSplits := {}\<rparr>"
  note lf = terminateDriversLoop_promises [OF l]
  note rf = releaseSplitsStates_fields [OF r]
  have t4f: "t4 = ?t3\<lparr>drivers := drivers t4, numRunningDrivers := numRunningDrivers t4,
            numFinishedDrivers := numFinishedDrivers t4\<rparr>"
    by (rule terminateDriversLoop_frame [OF l])
  have t6f: "t6 = ?t5\<lparr>preloadingSplits := preloadingSplits t6, taskStats := taskStats t6\<rparr>"
    by (rule releaseSplitsStates_frame [OF r])
  have w: "waiters = storePromises t"
    using releaseSplitsStates_waiters [OF r] lf(2) by (simp add: storePromises_def)
  have run0: "isRunningLocked ?t0" using run by (simp add: isRunningLocked_def)
  have tt1: "terminationTimeMs (taskStats ?t1) = 0" using tt by simp
  have cr2: "\<not> (s \<noteq> kFinished \<and> cancellationRequested ?t2)" using cr by auto
  have hp: "hasPartitionedOutput ?t5 = hasPartitionedOutput t"
    using lf(8) by (simp add: hasPartitionedOutput_def)
  have bf: "barrierFinishPromises t4 = barrierFinishPromises t" using lf(1) by simp
  have nt: "numThreads ?t8 = numThreads t" using rf(3) lf(5) by simp
  have pc: "promiseCounter ?t8 = promiseCounter t" using rf(4) lf(6) by simp
  have eq: "terminate now s t =
     (Inr (promiseCounter ?t8),
      ?t8\<lparr>promiseCounter := Suc (promiseCounter ?t8),
        threadFinishPromises :=
          (if numThreads ?t8 = 0 then threadFinishPromises ?t8
           else threadFinishPromises ?t8 @ [promiseCounter ?t8])\<rparr>,
      map SetValue (taskCompletionPromises ?t2)
      @ [OnTaskCompletion]
      @ map SetValue (stateChangePromises ?t2)
      @ map (\<lambda>d. CloseByTask (driverId d)) off
      @ (if hasPartitionedOutput ?t5 then [RemoveFromOutputBufferManager] else [])
      @ [CloseExchangeClients]
      @ resendRemoteSplits (t6\<lparr>splitsStates := states\<rparr>) remaining
      @ map SetValue waiters
      @ [CancelJoinBridges, ClosePreloadingSplits]
      @ map SetValue (barrierFinishPromises t4)
      @ (if numThreads ?t8 = 0 then [SetValue (promiseCounter ?t8)] else []))"
    unfolding terminate_def Let_def
    using run0 tt1 cr2 l r
    by (simp only: if_False if_True not_not simp_thms prod.case makeFinishFutureLocked_result
          Task.simps Task.update_convs)
  define t' where "t' = ?t8\<lparr>promiseCounter := Suc (promiseCounter ?t8),
        threadFinishPromises :=
          (if numThreads ?t8 = 0 then threadFinishPromises ?t8
           else threadFinishPromises ?t8 @ [promiseCounter ?t8])\<rparr>"
  define remote where "remote = resendRemoteSplits (t6\<lparr>splitsStates := states\<rparr>) remaining"
  have 1: "terminate now s t =
       (Inr (promiseCounter t), t',
        map SetValue (taskCompletionPromises t)
        @ [OnTaskCompletion]
        @ map SetValue (stateChangePromises t)
        @ map (\<lambda>d. CloseByTask (driverId d)) off
        @ (if hasPartitionedOutput t then [RemoveFromOutputBufferManager] else [])
        @ [CloseExchangeClients]
        @ remote
        @ map SetValue (storePromises t)
        @ [CancelJoinBridges, ClosePreloadingSplits]
        @ map SetValue (barrierFinishPromises t)
        @ (if numThreads t = 0 then [SetValue (promiseCounter t)] else []))"
    using eq w hp bf nt pc by (simp add: t'_def remote_def)
  have 2: "\<exists>remaining t7. remote = resendRemoteSplits t7 remaining"
    unfolding remote_def by blast
  have 3: "taskState t' = s" using rf(1) lf(3) by (simp add: t'_def)
  have 4: "exception t' = cancelMessage s (exception t)" using rf(2) lf(4) by (simp add: t'_def)
  have 5: "taskCompletionPromises t' = []" using rf(5) lf(7) by (simp add: t'_def)
  have 6: "promiseCounter t' = Suc (promiseCounter t)" using pc by (simp add: t'_def)
  have 7: "terminateRequested t'" unfolding t'_def by (subst t6f, subst t4f) simp
  from 1 2 3 4 5 6 7 show ?thesis by blast
qed

lemma terminate_check_termination_time:
  assumes "isRunningLocked t" and "terminationTimeMs (taskStats t) \<noteq> 0"
  shows "terminate now s t =
     (Inl (VeloxRuntimeError ''Termination time has already been set, this should only happen once.''),
      (if executionEndTimeMs (taskStats t) = 0
       then t\<lparr>taskStats := (taskStats t)\<lparr>executionEndTimeMs := now\<rparr>\<rparr> else t)\<lparr>taskState := s\<rparr>,
      [])"
  using assms by (simp add: terminate_def Let_def isRunningLocked_def)

lemma terminate_check_cancellation:
  assumes "isRunningLocked t" and "terminationTimeMs (taskStats t) = 0"
    and "s \<noteq> kFinished" and "cancellationRequested t"
  shows "\<exists>t'. terminate now s t =
     (Inl (VeloxRuntimeError ''!cancellationSource_.isCancellationRequested()''), t', [])
     \<and> taskState t' = s \<and> exception t' = cancelMessage s (exception t)"
  using assms by (simp add: terminate_def Let_def isRunningLocked_def)

lemma terminate_state:
  assumes run: "isRunningLocked t" and r: "terminate now s t = (r, t', evs)"
  shows "taskState t' = s"
proof (cases "terminationTimeMs (taskStats t) = 0")
  case False
  from terminate_check_termination_time [OF run False, of now s] r show ?thesis by auto
next
  case tt: True
  show ?thesis
  proof (cases "s = kFinished \<or> \<not> cancellationRequested t")
    case True
    from terminate_running [OF run tt True, of now] r show ?thesis by auto
  next
    case False
    then have "s \<noteq> kFinished" "cancellationRequested t" by auto
    from terminate_check_cancellation [OF run tt this, of now] r show ?thesis by auto
  qed
qed

lemma terminate_failed_exception:
  assumes run: "isRunningLocked t" and r: "terminate now kFailed t = (r, t', evs)"
  shows "exception t' = exception t"
proof (cases "terminationTimeMs (taskStats t) = 0")
  case False
  from terminate_check_termination_time [OF run False, of now kFailed] r show ?thesis by auto
next
  case tt: True
  show ?thesis
  proof (cases "\<not> cancellationRequested t")
    case True
    then have "kFailed = kFinished \<or> \<not> cancellationRequested t" by simp
    from terminate_running [OF run tt this, of now] r show ?thesis
      by (auto simp: cancelMessage_def)
  next
    case False
    then have "kFailed \<noteq> kFinished" "cancellationRequested t" by auto
    from terminate_check_cancellation [OF run tt this, of now] r show ?thesis
      by (auto simp: cancelMessage_def)
  qed
qed

section \<open>Claim C9: the first error wins\<close>

lemma setError_noop:
  "\<not> isRunningLocked t \<or> exception t \<noteq> None \<Longrightarrow> setError now e t = (None, t, [])"
  by (auto simp: setError_def)

lemma resendRemoteSplits_events:
  "ev \<in> set (resendRemoteSplits t remaining) \<Longrightarrow> isRemoteEvent ev"
  by (auto simp: resendRemoteSplits_def addRemoteSplit_def split: sum.splits option.splits if_splits)

lemma inj_SetValue: "inj SetValue"
  by (rule injI) simp

lemma count_list_CloseByTask [simp]:
  "count_list (map (\<lambda>d. CloseByTask (driverId d)) ds) (SetValue p) = 0"
  "count_list (map (\<lambda>d. CloseByTask (driverId d)) ds) OnTaskCompletion = 0"
  "count_list (map (\<lambda>d. CloseByTask (driverId d)) ds) ResumeCall = 0"
  by (induction ds) simp_all

lemma count_list_SetValue [simp]:
  "count_list (map SetValue ps) (SetValue p) = count_list ps p"
  "count_list (map SetValue ps) OnTaskCompletion = 0"
  "count_list (map SetValue ps) ResumeCall = 0"
  by (induction ps) simp_all

lemma count_list_remote [simp]:
  "count_list (resendRemoteSplits t remaining) (SetValue p) = 0"
  "count_list (resendRemoteSplits t remaining) OnTaskCompletion = 0"
  "count_list (resendRemoteSplits t remaining) ResumeCall = 0"
  using resendRemoteSplits_events [of "SetValue p" t remaining]
    resendRemoteSplits_events [of OnTaskCompletion t remaining]
    resendRemoteSplits_events [of ResumeCall t remaining]
  by (auto simp: count_list_0_iff)

text \<open>How often a terminate call that passes its checks emits an event.\<close>

lemma terminate_running_counts:
  assumes run: "isRunningLocked t"
    and tt: "terminationTimeMs (taskStats t) = 0"
    and cr: "s = kFinished \<or> \<not> cancellationRequested t"
    and r: "terminate now s t = (r, t', evs)"
  shows "count_list evs OnTaskCompletion = 1"
    and "count_list evs ResumeCall = 0"
    and "count_list evs (SetValue p) =
           count_list (taskCompletionPromises t) p + count_list (stateChangePromises t) p
           + count_list (storePromises t) p + count_list (barrierFinishPromises t) p
           + (if numThreads t = 0 \<and> p = promiseCounter t then 1 else 0)"
  using terminate_running [OF run tt cr, of now] r
  by auto

text \<open>
  Claim C9. A \<^verbatim>\<open>setError\<close> call on a task that no longer runs, or that already has
  an exception, returns without an effect: the task, and so its exception and its state,
  is the one before the call. A call on a running task without an exception runs
  \<^verbatim>\<open>terminate(kFailed)\<close> on the task with the exception stored; whether or not the
  checks of \<^verbatim>\<open>terminate\<close> pass, the task is then in state \<open>kFailed\<close> and holds
  that exception; when the checks pass (the termination time is not set and no
  cancellation was requested) the call returns normally, has requested the termination
  and has notified the completion listeners once. Every later \<^verbatim>\<open>setError\<close> call,
  with whatever exception, has no effect: the first error wins.
\<close>

theorem setError_first_error_wins:
  "(\<not> isRunningLocked t \<or> exception t \<noteq> None \<longrightarrow> setError now e t = (None, t, []))
   \<and> (isRunningLocked t \<and> exception t = None \<longrightarrow>
        (\<exists>err t' evs r evs0.
           setError now e t = (err, t', evs)
           \<and> terminate now kFailed (t\<lparr>exception := e\<rparr>) = (r, t', evs0)
           \<and> (err = None \<longleftrightarrow> \<not> isl r)
           \<and> exception t' = e \<and> taskState t' = kFailed
           \<and> (terminationTimeMs (taskStats t) = 0 \<and> \<not> cancellationRequested t \<longrightarrow>
                err = None \<and> terminateRequested t' \<and> count_list evs OnTaskCompletion = 1)
           \<and> (\<forall>now' e'. setError now' e' t' = (None, t', []))))"
proof (intro conjI impI)
  assume "\<not> isRunningLocked t \<or> exception t \<noteq> None"
  then show "setError now e t = (None, t, [])" by (rule setError_noop)
next
  assume a: "isRunningLocked t \<and> exception t = None"
  let ?t = "t\<lparr>exception := e\<rparr>"
  obtain r t' evs0 where r: "terminate now kFailed ?t = (r, t', evs0)"
    by (metis prod_cases3)
  have run: "isRunningLocked ?t" using a by (simp add: isRunningLocked_def)
  define err where "err = (case r of Inl x \<Rightarrow> Some x | Inr f \<Rightarrow> None)"
  define evs where "evs = (case r of Inl x \<Rightarrow> evs0
    | Inr f \<Rightarrow> evs0 @ (if onError t' then [OnError (exception t')] else []))"
  have 1: "setError now e t = (err, t', evs)"
    using a r by (simp add: setError_def err_def evs_def split: sum.splits)
  have 2: "err = None \<longleftrightarrow> \<not> isl r"
    by (simp add: err_def split: sum.splits)
  have 3: "exception t' = e"
    using terminate_failed_exception [OF run r] by simp
  have 4: "taskState t' = kFailed"
    by (rule terminate_state [OF run r])
  have 5: "terminationTimeMs (taskStats t) = 0 \<and> \<not> cancellationRequested t \<longrightarrow>
      err = None \<and> terminateRequested t' \<and> count_list evs OnTaskCompletion = 1"
  proof
    assume b: "terminationTimeMs (taskStats t) = 0 \<and> \<not> cancellationRequested t"
    then have tt: "terminationTimeMs (taskStats ?t) = 0"
      and cr: "kFailed = kFinished \<or> \<not> cancellationRequested ?t" by simp_all
    from terminate_running [OF run tt cr, of now] r
    have "\<not> isl r" "terminateRequested t'" by auto
    moreover from terminate_running_counts(1) [OF run tt cr r]
    have "count_list evs0 OnTaskCompletion = 1" .
    ultimately show "err = None \<and> terminateRequested t' \<and> count_list evs OnTaskCompletion = 1"
      using 2 by (auto simp: evs_def split: sum.splits)
  qed
  have 6: "\<forall>now' e'. setError now' e' t' = (None, t', [])"
    using 4 by (simp add: setError_noop isRunningLocked_def)
  from 1 2 3 4 5 6 r
  show "\<exists>err t' evs r evs0.
           setError now e t = (err, t', evs)
           \<and> terminate now kFailed (t\<lparr>exception := e\<rparr>) = (r, t', evs0)
           \<and> (err = None \<longleftrightarrow> \<not> isl r)
           \<and> exception t' = e \<and> taskState t' = kFailed
           \<and> (terminationTimeMs (taskStats t) = 0 \<and> \<not> cancellationRequested t \<longrightarrow>
                err = None \<and> terminateRequested t' \<and> count_list evs OnTaskCompletion = 1)
           \<and> (\<forall>now' e'. setError now' e' t' = (None, t', []))"
    by blast
qed

lemma exampleTask_sel2:
  "terminationTimeMs (taskStats exampleTask) = 0" "cancellationRequested exampleTask = False"
  "taskCompletionPromises exampleTask = []" "stateChangePromises exampleTask = []"
  "numFinishedDrivers exampleTask = 0" "numTotalDrivers exampleTask = 1"
  "isGroupedExecution exampleTask = False" "numRunningDrivers exampleTask = 1"
  "driverFactories exampleTask = [\<lparr>numDrivers = 1, outputDriver = True\<rparr>]"
  "numFinishedOutputDriversUngrouped exampleTask = 0"
  "numDriversInPartitionedOutput exampleTask = 0"
  "isExecutorSupplied exampleTask = False" "resumePromises exampleTask = []"
  "threadFinishPromises exampleTask = []"
  by (simp_all add: exampleTask_def)

text \<open>
  The statement on the example task: the first error fails the task, a later one is
  dropped; and an error for a task that already holds an exception is dropped.
\<close>

theorem setError_first_error_wins_witness:
  "isRunningLocked exampleTask \<and> exception exampleTask = None
   \<and> terminationTimeMs (taskStats exampleTask) = 0
   \<and> cancellationRequested exampleTask = False
   \<and> (\<exists>t' evs. setError 5 (Some ''boom'') exampleTask = (None, t', evs)
         \<and> exception t' = Some ''boom'' \<and> taskState t' = kFailed
         \<and> terminateRequested t' \<and> count_list evs OnTaskCompletion = 1
         \<and> setError 6 (Some ''late'') t' = (None, t', []))
   \<and> setError 6 (Some ''late'') (exampleTask\<lparr>exception := Some ''boom''\<rparr>)
       = (None, exampleTask\<lparr>exception := Some ''boom''\<rparr>, [])"
  using setError_first_error_wins [of exampleTask 5 "Some ''boom''"]
    setError_first_error_wins [of "exampleTask\<lparr>exception := Some ''boom''\<rparr>" 6 "Some ''late''"]
  by (simp add: isRunningLocked_def exampleTask_sel exampleTask_sel2) blast

section \<open>Claim C3: terminating once\<close>

lemma upt_add_Suc: "[n ..< n + Suc k] = n # [Suc n ..< Suc n + k]"
  by (subst upt_conv_Cons) simp_all

lemma count_list_upt: "count_list [m ..< n] p = (if m \<le> p \<and> p < n then 1 else 0)"
  by (induction n) auto

lemma terminateCalls_not_running:
  "\<not> isRunningLocked t \<Longrightarrow> terminateCalls calls t = (rs, t', evs) \<Longrightarrow>
     taskState t' = taskState t \<and> exception t' = exception t
     \<and> numRunningDrivers t' = numRunningDrivers t
     \<and> numFinishedDrivers t' = numFinishedDrivers t
     \<and> drivers t' = drivers t
     \<and> taskCompletionPromises t' = taskCompletionPromises t
     \<and> rs = map Inr [promiseCounter t ..< promiseCounter t + length calls]
     \<and> promiseCounter t' = promiseCounter t + length calls
     \<and> set evs \<subseteq> SetValue ` {promiseCounter t ..< promiseCounter t + length calls}"
proof (induction calls arbitrary: t rs t' evs)
  case Nil
  then show ?case by simp
next
  case (Cons c calls)
  obtain now s where c: "c = (now, s)" by (cases c)
  let ?t1 = "t\<lparr>taskStats :=
          (if executionEndTimeMs (taskStats t) = 0
           then (taskStats t)\<lparr>executionEndTimeMs := now\<rparr> else taskStats t),
        promiseCounter := Suc (promiseCounter t),
        threadFinishPromises :=
          (if numThreads t = 0 then threadFinishPromises t
           else threadFinishPromises t @ [promiseCounter t])\<rparr>"
  let ?evs1 = "if numThreads t = 0 then [SetValue (promiseCounter t)] else []"
  note t1 = terminate_not_running [OF Cons.prems(1), of now s]
  obtain rs2 t2 evs2 where r: "terminateCalls calls ?t1 = (rs2, t2, evs2)"
    by (metis prod_cases3)
  have nr: "\<not> isRunningLocked ?t1" using Cons.prems(1) by (simp add: isRunningLocked_def)
  note ih = Cons.IH [OF nr r]
  from Cons.prems(2) c t1 r
  have e: "rs = Inr (promiseCounter t) # rs2" "t' = t2" "evs = ?evs1 @ evs2"
    by simp_all
  have u: "[promiseCounter t ..< promiseCounter t + length (c # calls)]
      = promiseCounter t # [Suc (promiseCounter t) ..< Suc (promiseCounter t) + length calls]"
    unfolding length_Cons by (rule upt_add_Suc)
  have s1: "set ?evs1 \<subseteq> SetValue ` {promiseCounter t ..< promiseCounter t + length (c # calls)}"
    by auto
  have s2: "set evs2 \<subseteq> SetValue ` {promiseCounter t ..< promiseCounter t + length (c # calls)}"
  proof
    fix ev assume "ev \<in> set evs2"
    with ih obtain p where "ev = SetValue p" "Suc (promiseCounter t) \<le> p"
      "p < Suc (promiseCounter t) + length calls" by auto
    then show "ev \<in> SetValue ` {promiseCounter t ..< promiseCounter t + length (c # calls)}"
      by auto
  qed
  from ih have f: "taskState t2 = taskState t" "exception t2 = exception t"
    "numRunningDrivers t2 = numRunningDrivers t" "numFinishedDrivers t2 = numFinishedDrivers t"
    "drivers t2 = drivers t" "taskCompletionPromises t2 = taskCompletionPromises t"
    "rs2 = map Inr [Suc (promiseCounter t) ..< Suc (promiseCounter t) + length calls]"
    "promiseCounter t2 = Suc (promiseCounter t) + length calls"
    by simp_all
  show ?case
    unfolding e u using f s1 s2 by (simp del: upt_Suc)
qed

lemma taskCompletionFutures_running:
  "isRunningLocked t \<Longrightarrow>
     taskCompletionFutures k t =
       ([promiseCounter t ..< promiseCounter t + k],
        t\<lparr>promiseCounter := promiseCounter t + k,
          taskCompletionPromises :=
            taskCompletionPromises t @ [promiseCounter t ..< promiseCounter t + k]\<rparr>,
        [])"
proof (induction k arbitrary: t)
  case 0
  then show ?case by simp
next
  case (Suc k)
  let ?t1 = "t\<lparr>promiseCounter := Suc (promiseCounter t),
              taskCompletionPromises := taskCompletionPromises t @ [promiseCounter t]\<rparr>"
  have f: "taskCompletionFuture t = (promiseCounter t, ?t1, [])"
    using Suc.prems by (simp add: taskCompletionFuture_def)
  have run: "isRunningLocked ?t1" using Suc.prems by (simp add: isRunningLocked_def)
  have u: "[promiseCounter t ..< promiseCounter t + Suc k]
      = promiseCounter t # [Suc (promiseCounter t) ..< Suc (promiseCounter t) + k]"
    by (rule upt_add_Suc)
  show ?case
    unfolding u by (simp add: f Suc.IH [OF run] del: upt_Suc)
qed


text \<open>
  Claim C3. (1) On a task that is not running, a sequence of \<^verbatim>\<open>terminate\<close> calls
  with any terminal states leaves the state, the exception, the two driver counters and
  the driver slots as they are; each call returns the future of a new promise, and the
  only events are fulfilments of these new promises: no completion listener is
  notified and no driver is closed. (2) A \<^verbatim>\<open>terminate\<close> call with a terminal state
  on a running task leaves the task in that state, not running, whether or not its
  checks pass. (3) Let \<open>k\<close> callers request \<^verbatim>\<open>taskCompletionFuture\<close> on a running
  task (whose pending promises were handed out earlier, and which has neither a
  termination time nor a cancellation request), and let the task then be terminated
  and \<^verbatim>\<open>terminate\<close> be called again any number of times. Then the \<open>k\<close> futures
  are those of \<open>k\<close> new promises, none fulfilled by the requests; the first
  \<^verbatim>\<open>terminate\<close> notifies the completion listeners once and fulfils each of the
  \<open>k\<close> promises exactly once, and the later calls fulfil none of them and notify
  nobody. (4) A caller of \<^verbatim>\<open>taskCompletionFuture\<close> on a task that is not running
  gets the future of a new promise, which is fulfilled at once when no thread runs and
  is queued once in \<open>threadFinishPromises\<close> otherwise.
\<close>

theorem terminate_idempotent:
  "(\<not> isRunningLocked t1 \<and> terminateCalls calls t1 = (rs, t2, evs2) \<longrightarrow>
      taskState t2 = taskState t1 \<and> exception t2 = exception t1
      \<and> numRunningDrivers t2 = numRunningDrivers t1
      \<and> numFinishedDrivers t2 = numFinishedDrivers t1
      \<and> drivers t2 = drivers t1
      \<and> rs = map Inr [promiseCounter t1 ..< promiseCounter t1 + length calls]
      \<and> set evs2 \<subseteq> SetValue ` {promiseCounter t1 ..< promiseCounter t1 + length calls})
   \<and> (isRunningLocked t \<and> s \<noteq> kRunning \<and> terminate now s t = (r, t', evs) \<longrightarrow>
        taskState t' = s \<and> \<not> isRunningLocked t')
   \<and> (isRunningLocked t \<and> s \<noteq> kRunning
        \<and> terminationTimeMs (taskStats t) = 0 \<and> \<not> cancellationRequested t
        \<and> list_all (\<lambda>p. p < promiseCounter t) (pendingPromises t)
        \<and> taskCompletionFutures k t = (futures, t0, evs0)
        \<and> terminate now s t0 = (r0, t3, evs3)
        \<and> terminateCalls calls t3 = (rs', t4, evs4) \<longrightarrow>
        futures = [promiseCounter t ..< promiseCounter t + k] \<and> evs0 = []
        \<and> taskState t3 = s \<and> taskCompletionPromises t3 = []
        \<and> count_list evs3 OnTaskCompletion = 1
        \<and> count_list evs4 OnTaskCompletion = 0
        \<and> (\<forall>p \<in> set futures.
              count_list evs3 (SetValue p) = 1 \<and> count_list evs4 (SetValue p) = 0))
   \<and> (\<not> isRunningLocked t1 \<longrightarrow>
        taskCompletionFuture t1 =
          (promiseCounter t1,
           t1\<lparr>promiseCounter := Suc (promiseCounter t1),
              threadFinishPromises :=
                (if numThreads t1 = 0 then threadFinishPromises t1
                 else threadFinishPromises t1 @ [promiseCounter t1])\<rparr>,
           if numThreads t1 = 0 then [SetValue (promiseCounter t1)] else []))"
proof -
  have p1: "\<not> isRunningLocked t1 \<and> terminateCalls calls t1 = (rs, t2, evs2) \<longrightarrow>
      taskState t2 = taskState t1 \<and> exception t2 = exception t1
      \<and> numRunningDrivers t2 = numRunningDrivers t1
      \<and> numFinishedDrivers t2 = numFinishedDrivers t1
      \<and> drivers t2 = drivers t1
      \<and> rs = map Inr [promiseCounter t1 ..< promiseCounter t1 + length calls]
      \<and> set evs2 \<subseteq> SetValue ` {promiseCounter t1 ..< promiseCounter t1 + length calls}"
  proof
    assume a: "\<not> isRunningLocked t1 \<and> terminateCalls calls t1 = (rs, t2, evs2)"
    then have nr: "\<not> isRunningLocked t1" and c: "terminateCalls calls t1 = (rs, t2, evs2)"
      by simp_all
    from terminateCalls_not_running [OF nr c]
    show "taskState t2 = taskState t1 \<and> exception t2 = exception t1
        \<and> numRunningDrivers t2 = numRunningDrivers t1
        \<and> numFinishedDrivers t2 = numFinishedDrivers t1
        \<and> drivers t2 = drivers t1
        \<and> rs = map Inr [promiseCounter t1 ..< promiseCounter t1 + length calls]
        \<and> set evs2 \<subseteq> SetValue ` {promiseCounter t1 ..< promiseCounter t1 + length calls}"
      by simp
  qed
  have p2: "isRunningLocked t \<and> s \<noteq> kRunning \<and> terminate now s t = (r, t', evs) \<longrightarrow>
        taskState t' = s \<and> \<not> isRunningLocked t'"
  proof
    assume a: "isRunningLocked t \<and> s \<noteq> kRunning \<and> terminate now s t = (r, t', evs)"
    then have "taskState t' = s" using terminate_state [of t now s r t' evs] by simp
    with a show "taskState t' = s \<and> \<not> isRunningLocked t'"
      by (simp add: isRunningLocked_def)
  qed
  have p4: "\<not> isRunningLocked t1 \<longrightarrow>
        taskCompletionFuture t1 =
          (promiseCounter t1,
           t1\<lparr>promiseCounter := Suc (promiseCounter t1),
              threadFinishPromises :=
                (if numThreads t1 = 0 then threadFinishPromises t1
                 else threadFinishPromises t1 @ [promiseCounter t1])\<rparr>,
           if numThreads t1 = 0 then [SetValue (promiseCounter t1)] else [])"
  proof
    assume nr: "\<not> isRunningLocked t1"
    then show "taskCompletionFuture t1 =
            (promiseCounter t1,
             t1\<lparr>promiseCounter := Suc (promiseCounter t1),
                threadFinishPromises :=
                  (if numThreads t1 = 0 then threadFinishPromises t1
                   else threadFinishPromises t1 @ [promiseCounter t1])\<rparr>,
             if numThreads t1 = 0 then [SetValue (promiseCounter t1)] else [])"
      by (simp add: taskCompletionFuture_def makeFinishFutureLocked_result)
  qed
  have p3: "isRunningLocked t \<and> s \<noteq> kRunning
        \<and> terminationTimeMs (taskStats t) = 0 \<and> \<not> cancellationRequested t
        \<and> list_all (\<lambda>p. p < promiseCounter t) (pendingPromises t)
        \<and> taskCompletionFutures k t = (futures, t0, evs0)
        \<and> terminate now s t0 = (r0, t3, evs3)
        \<and> terminateCalls calls t3 = (rs', t4, evs4) \<longrightarrow>
        futures = [promiseCounter t ..< promiseCounter t + k] \<and> evs0 = []
        \<and> taskState t3 = s \<and> taskCompletionPromises t3 = []
        \<and> count_list evs3 OnTaskCompletion = 1
        \<and> count_list evs4 OnTaskCompletion = 0
        \<and> (\<forall>p \<in> set futures.
              count_list evs3 (SetValue p) = 1 \<and> count_list evs4 (SetValue p) = 0)"
  proof
    let ?pc = "promiseCounter t"
    assume a: "isRunningLocked t \<and> s \<noteq> kRunning
          \<and> terminationTimeMs (taskStats t) = 0 \<and> \<not> cancellationRequested t
          \<and> list_all (\<lambda>p. p < promiseCounter t) (pendingPromises t)
          \<and> taskCompletionFutures k t = (futures, t0, evs0)
          \<and> terminate now s t0 = (r0, t3, evs3)
          \<and> terminateCalls calls t3 = (rs', t4, evs4)"
    then have run: "isRunningLocked t" and s: "s \<noteq> kRunning"
      and tt: "terminationTimeMs (taskStats t) = 0" and cr: "\<not> cancellationRequested t"
      and alloc: "list_all (\<lambda>p. p < ?pc) (pendingPromises t)"
      and f: "taskCompletionFutures k t = (futures, t0, evs0)"
      and first: "terminate now s t0 = (r0, t3, evs3)"
      and later: "terminateCalls calls t3 = (rs', t4, evs4)"
      by simp_all
    from f [unfolded taskCompletionFutures_running [OF run, of k]]
    have fu: "futures = [?pc ..< ?pc + k]" and e0: "evs0 = []"
      and t0: "t0 = t\<lparr>promiseCounter := ?pc + k,
            taskCompletionPromises := taskCompletionPromises t @ [?pc ..< ?pc + k]\<rparr>"
      by auto
    have run0: "isRunningLocked t0" using run by (simp add: t0 isRunningLocked_def)
    have tt0: "terminationTimeMs (taskStats t0) = 0" using tt by (simp add: t0)
    have cr0: "s = kFinished \<or> \<not> cancellationRequested t0" using cr by (simp add: t0)
    have sel0: "taskCompletionPromises t0 = taskCompletionPromises t @ [?pc ..< ?pc + k]"
      "stateChangePromises t0 = stateChangePromises t" "storePromises t0 = storePromises t"
      "barrierFinishPromises t0 = barrierFinishPromises t" "promiseCounter t0 = ?pc + k"
      by (simp_all add: t0 storePromises_def)
    note counts = terminate_running_counts [OF run0 tt0 cr0 first]
    from terminate_running [OF run0 tt0 cr0, of now] first
    have st3: "taskState t3 = s" and tc3: "taskCompletionPromises t3 = []"
      and pc3: "promiseCounter t3 = Suc (?pc + k)"
      by (auto simp: sel0)
    have nr3: "\<not> isRunningLocked t3" using st3 s by (simp add: isRunningLocked_def)
    from terminateCalls_not_running [OF nr3 later]
    have sub: "set evs4 \<subseteq> SetValue ` {Suc (?pc + k) ..< Suc (?pc + k) + length calls}"
      by (simp add: pc3)
    have c4: "count_list evs4 OnTaskCompletion = 0"
      using sub by (auto simp: count_list_0_iff)
    have each: "count_list evs3 (SetValue p) = 1 \<and> count_list evs4 (SetValue p) = 0"
      if p: "p \<in> set futures" for p
    proof -
      from p fu have lo: "?pc \<le> p" and hi: "p < ?pc + k" by simp_all
      from alloc have "\<forall>q \<in> set (pendingPromises t). q < ?pc"
        by (simp add: list_all_iff)
      with lo have "p \<notin> set (pendingPromises t)"
        using not_less by blast
      then have old: "p \<notin> set (taskCompletionPromises t)"
        "p \<notin> set (stateChangePromises t)" "p \<notin> set (storePromises t)"
        "p \<notin> set (barrierFinishPromises t)"
        by (simp_all add: pendingPromises_def)
      have new: "count_list [?pc ..< ?pc + k] p = 1"
        using lo hi by (simp add: count_list_upt)
      have "count_list evs3 (SetValue p) = 1"
        using counts(3) [of p] old new hi by (simp add: sel0)
      moreover have "SetValue p \<notin> set evs4" using sub hi by auto
      ultimately show ?thesis by (simp add: count_list_0_iff)
    qed
    from fu e0 st3 tc3 counts(1) c4 each
    show "futures = [promiseCounter t ..< promiseCounter t + k] \<and> evs0 = []
          \<and> taskState t3 = s \<and> taskCompletionPromises t3 = []
          \<and> count_list evs3 OnTaskCompletion = 1
          \<and> count_list evs4 OnTaskCompletion = 0
          \<and> (\<forall>p \<in> set futures.
                count_list evs3 (SetValue p) = 1 \<and> count_list evs4 (SetValue p) = 0)"
      by blast
  qed
  show ?thesis
    by (rule conjI [OF p1 conjI [OF p2 conjI [OF p3 p4]]])
qed

lemma terminate_example:
  "\<exists>t3. terminate 5 kCanceled (exampleTask\<lparr>promiseCounter := 2, taskCompletionPromises := [0, 1]\<rparr>)
     = (Inr 2, t3,
        [SetValue 0, SetValue 1, OnTaskCompletion, CloseByTask 0, CloseExchangeClients,
         CancelJoinBridges, ClosePreloadingSplits, SetValue 2])"
  by (simp add: terminate_def Let_def exampleTask_def isRunningLocked_def cancelMessage_def
      terminateDriversLoop.simps [of 0] terminateDriversLoop.simps [of "Suc 0"]
      enterForTerminateLocked_def exampleDriver_def setThread_def
      driverClosedLocked_def exampleSplitsState_def takeStorePromises_def hasPartitionedOutput_def
      makeFinishFutureLocked_def resendRemoteSplits_def)


lemma taskCompletionFutures_example:
  "taskCompletionFutures 2 exampleTask =
     ([0, 1], exampleTask\<lparr>promiseCounter := 2, taskCompletionPromises := [0, 1]\<rparr>, [])"
proof -
  have "isRunningLocked exampleTask" by (simp add: isRunningLocked_def exampleTask_sel)
  from taskCompletionFutures_running [OF this, of 2] show ?thesis
    by (simp add: exampleTask_sel exampleTask_sel2 upt_conv_Cons del: upt_Suc)
qed

text \<open>
  The statement on the example task: two callers ask for the completion future, the
  task is cancelled at time 5, and \<^verbatim>\<open>terminate\<close> is called twice more.
\<close>

theorem terminate_idempotent_witness:
  "isRunningLocked exampleTask \<and> terminationTimeMs (taskStats exampleTask) = 0
   \<and> cancellationRequested exampleTask = False \<and> pendingPromises exampleTask = []
   \<and> taskCompletionFutures 2 exampleTask =
       ([0, 1], exampleTask\<lparr>promiseCounter := 2, taskCompletionPromises := [0, 1]\<rparr>, [])
   \<and> (\<exists>t3 rs t4 evs4.
        terminate 5 kCanceled (exampleTask\<lparr>promiseCounter := 2, taskCompletionPromises := [0, 1]\<rparr>)
          = (Inr 2, t3,
             [SetValue 0, SetValue 1, OnTaskCompletion, CloseByTask 0, CloseExchangeClients,
              CancelJoinBridges, ClosePreloadingSplits, SetValue 2])
        \<and> terminateCalls [(6, kFailed), (7, kFinished)] t3 = (rs, t4, evs4)
        \<and> taskState t3 = kCanceled \<and> taskCompletionPromises t3 = []
        \<and> taskState t4 = kCanceled \<and> exception t4 = exception t3
        \<and> numRunningDrivers t4 = numRunningDrivers t3
        \<and> numFinishedDrivers t4 = numFinishedDrivers t3
        \<and> rs = [Inr (promiseCounter t3), Inr (Suc (promiseCounter t3))]
        \<and> count_list evs4 OnTaskCompletion = 0
        \<and> count_list evs4 (SetValue 0) = 0 \<and> count_list evs4 (SetValue 1) = 0)"
proof -
  let ?t0 = "exampleTask\<lparr>promiseCounter := 2, taskCompletionPromises := [0, 1]\<rparr>"
  let ?evs3 = "[SetValue 0, SetValue 1, OnTaskCompletion, CloseByTask 0, CloseExchangeClients,
              CancelJoinBridges, ClosePreloadingSplits, SetValue 2]"
  let ?calls = "[(6, kFailed), (7, kFinished)]"
  obtain t3 where first: "terminate 5 kCanceled ?t0 = (Inr 2, t3, ?evs3)"
    using terminate_example ..
  obtain rs t4 evs4 where later: "terminateCalls ?calls t3 = (rs, t4, evs4)"
    by (metis prod_cases3)
  have run: "isRunningLocked exampleTask" by (simp add: isRunningLocked_def exampleTask_sel)
  have pend: "pendingPromises exampleTask = []"
    by (simp add: pendingPromises_def storePromises_def exampleTask_sel exampleTask_sel2
        exampleSplitsState_def)
  note th = terminate_idempotent [where ?t1.0 = t3 and calls = ?calls and rs = rs and ?t2.0 = t4
      and ?evs2.0 = evs4 and t = exampleTask and s = kCanceled and now = 5 and k = 2
      and futures = "[0, 1]" and ?t0.0 = ?t0 and ?evs0.0 = "[]" and ?r0.0 = "Inr 2" and ?t3.0 = t3
      and ?evs3.0 = ?evs3 and rs' = rs and ?t4.0 = t4 and ?evs4.0 = evs4]
  from th [THEN conjunct2, THEN conjunct2, THEN conjunct1]
  have p3: "taskState t3 = kCanceled \<and> taskCompletionPromises t3 = []
      \<and> count_list evs4 OnTaskCompletion = 0
      \<and> count_list evs4 (SetValue 0) = 0 \<and> count_list evs4 (SetValue 1) = 0"
    using run pend first later taskCompletionFutures_example
    by (simp add: exampleTask_sel exampleTask_sel2)
  then have nr: "\<not> isRunningLocked t3" by (simp add: isRunningLocked_def)
  from th [THEN conjunct1] nr later
  have p1: "taskState t4 = taskState t3 \<and> exception t4 = exception t3
      \<and> numRunningDrivers t4 = numRunningDrivers t3
      \<and> numFinishedDrivers t4 = numFinishedDrivers t3
      \<and> rs = [Inr (promiseCounter t3), Inr (Suc (promiseCounter t3))]"
    by (simp add: upt_conv_Cons del: upt_Suc)
  have ex: "\<exists>t3 rs t4 evs4.
        terminate 5 kCanceled ?t0 = (Inr 2, t3, ?evs3)
        \<and> terminateCalls ?calls t3 = (rs, t4, evs4)
        \<and> taskState t3 = kCanceled \<and> taskCompletionPromises t3 = []
        \<and> taskState t4 = kCanceled \<and> exception t4 = exception t3
        \<and> numRunningDrivers t4 = numRunningDrivers t3
        \<and> numFinishedDrivers t4 = numFinishedDrivers t3
        \<and> rs = [Inr (promiseCounter t3), Inr (Suc (promiseCounter t3))]
        \<and> count_list evs4 OnTaskCompletion = 0
        \<and> count_list evs4 (SetValue 0) = 0 \<and> count_list evs4 (SetValue 1) = 0"
    apply (rule exI [of _ t3], rule exI [of _ rs], rule exI [of _ t4], rule exI [of _ evs4])
    using first later p3 p1 by simp
  show ?thesis
    using run pend taskCompletionFutures_example ex
    by (simp only: exampleTask_sel2 simp_thms)
qed

section \<open>Claim C4: when the task counts as finished\<close>

lemma checkIfFinishedLocked_not_running:
  "\<not> isRunningLocked t \<Longrightarrow> checkIfFinishedLocked now t = (Inr False, t)"
  by (simp add: checkIfFinishedLocked_def)

lemma checkIfFinishedLocked_true_cases:
  assumes "checkIfFinishedLocked now t = (Inr True, t')"
  shows "isRunningLocked t"
    and "numFinishedDrivers t = numTotalDrivers t
         \<or> (\<not> isGroupedExecution t
            \<and> (\<exists>i. getOutputPipelineId t = Inr i
                    \<and> numFinishedOutputDriversUngrouped t = numDriversOf t i))"
    and "\<not> hasPartitionedOutput t \<or> partitionedOutputConsumed t"
    and "taskState t' = taskState t"
    and "numFinishedDrivers t' = numFinishedDrivers t"
    and "numTotalDrivers t' = numTotalDrivers t"
    and "endTimeMs (taskStats t') = now"
  using assms
  by (auto simp: checkIfFinishedLocked_def Let_def hasPartitionedOutput_def
      split: if_splits sum.splits)

text \<open>
  Claim C4 (as amended). When \<^verbatim>\<open>checkIfFinishedLocked\<close> returns true, the task is
  running, its partitioned output (if it has one) is consumed, and either
  \<open>numFinishedDrivers\<close> equals \<open>numTotalDrivers\<close>, or the execution is ungrouped
  and all drivers of the output pipeline have finished; in grouped execution the two
  counters are equal. The call changes neither the state nor the two counters. On a
  task that is not running the call returns false and changes nothing; so once the
  caller has run \<^verbatim>\<open>terminate(kFinished)\<close> after a true answer, no later call
  returns true.
\<close>

theorem checkIfFinishedLocked_true:
  "(checkIfFinishedLocked now t = (Inr True, t') \<longrightarrow>
      isRunningLocked t
      \<and> (numFinishedDrivers t = numTotalDrivers t
          \<or> (\<not> isGroupedExecution t
             \<and> (\<exists>i. getOutputPipelineId t = Inr i
                     \<and> numFinishedOutputDriversUngrouped t = numDriversOf t i)))
      \<and> (\<not> hasPartitionedOutput t \<or> partitionedOutputConsumed t)
      \<and> taskState t' = taskState t
      \<and> numFinishedDrivers t' = numFinishedDrivers t
      \<and> numTotalDrivers t' = numTotalDrivers t
      \<and> endTimeMs (taskStats t') = now)
   \<and> (isGroupedExecution t \<and> checkIfFinishedLocked now t = (Inr True, t') \<longrightarrow>
        numFinishedDrivers t = numTotalDrivers t)
   \<and> (\<not> isRunningLocked t \<longrightarrow> checkIfFinishedLocked now t = (Inr False, t))
   \<and> (checkIfFinishedLocked now t = (Inr True, t') \<and> terminate now' kFinished t' = (r, t'', evs)
        \<longrightarrow> (\<forall>now''. checkIfFinishedLocked now'' t'' = (Inr False, t'')))"
proof -
  have p1: "checkIfFinishedLocked now t = (Inr True, t') \<longrightarrow>
      isRunningLocked t
      \<and> (numFinishedDrivers t = numTotalDrivers t
          \<or> (\<not> isGroupedExecution t
             \<and> (\<exists>i. getOutputPipelineId t = Inr i
                     \<and> numFinishedOutputDriversUngrouped t = numDriversOf t i)))
      \<and> (\<not> hasPartitionedOutput t \<or> partitionedOutputConsumed t)
      \<and> taskState t' = taskState t
      \<and> numFinishedDrivers t' = numFinishedDrivers t
      \<and> numTotalDrivers t' = numTotalDrivers t
      \<and> endTimeMs (taskStats t') = now"
    using checkIfFinishedLocked_true_cases [of now t t'] by blast
  have p2: "isGroupedExecution t \<and> checkIfFinishedLocked now t = (Inr True, t') \<longrightarrow>
        numFinishedDrivers t = numTotalDrivers t"
    using checkIfFinishedLocked_true_cases(2) [of now t t'] by blast
  have p3: "\<not> isRunningLocked t \<longrightarrow> checkIfFinishedLocked now t = (Inr False, t)"
    by (simp add: checkIfFinishedLocked_not_running)
  have p4: "checkIfFinishedLocked now t = (Inr True, t') \<and> terminate now' kFinished t' = (r, t'', evs)
        \<longrightarrow> (\<forall>now''. checkIfFinishedLocked now'' t'' = (Inr False, t''))"
  proof (intro impI allI)
    fix now''
    assume a: "checkIfFinishedLocked now t = (Inr True, t') \<and> terminate now' kFinished t' = (r, t'', evs)"
    then have "isRunningLocked t" "taskState t' = taskState t"
      using checkIfFinishedLocked_true_cases [of now t t'] by simp_all
    then have "isRunningLocked t'" by (simp add: isRunningLocked_def)
    from terminate_state [OF this] a have "taskState t'' = kFinished" by blast
    then have "\<not> isRunningLocked t''" by (simp add: isRunningLocked_def)
    then show "checkIfFinishedLocked now'' t'' = (Inr False, t'')"
      by (rule checkIfFinishedLocked_not_running)
  qed
  show ?thesis
    by (rule conjI [OF p1 conjI [OF p2 conjI [OF p3 p4]]])
qed

lemma exampleTaskOutputFinished_sel:
  "taskState exampleTaskOutputFinished = kRunning"
  "numFinishedDrivers exampleTaskOutputFinished = 1"
  "numTotalDrivers exampleTaskOutputFinished = 2"
  "isGroupedExecution exampleTaskOutputFinished = False"
  by (simp_all add: exampleTaskOutputFinished_def exampleTask_sel exampleTask_sel2)

lemma checkIfFinishedLocked_example:
  "checkIfFinishedLocked 5 exampleTaskOutputFinished =
     (Inr True,
      exampleTaskOutputFinished
        \<lparr>taskStats := (taskStats exampleTaskOutputFinished)\<lparr>executionEndTimeMs := 5, endTimeMs := 5\<rparr>\<rparr>)"
  by (simp add: checkIfFinishedLocked_def Let_def exampleTaskOutputFinished_def exampleTask_def
      isRunningLocked_def getOutputPipelineId_def numDriversOf_def hasPartitionedOutput_def)

text \<open>
  The statement on three tasks: the one whose output pipeline has finished (a true
  answer, and false after \<^verbatim>\<open>terminate(kFinished)\<close>), the example task in grouped
  execution with its one driver finished, and the example task after it has finished.
\<close>

theorem checkIfFinishedLocked_true_witness:
  "checkIfFinishedLocked 5 exampleTaskOutputFinished =
     (Inr True,
      exampleTaskOutputFinished
        \<lparr>taskStats := (taskStats exampleTaskOutputFinished)\<lparr>executionEndTimeMs := 5, endTimeMs := 5\<rparr>\<rparr>)
   \<and> isRunningLocked exampleTaskOutputFinished
   \<and> isGroupedExecution exampleTaskOutputFinished = False
   \<and> (\<exists>i. getOutputPipelineId exampleTaskOutputFinished = Inr i
          \<and> numFinishedOutputDriversUngrouped exampleTaskOutputFinished
              = numDriversOf exampleTaskOutputFinished i)
   \<and> (\<exists>r t'' evs.
        terminate 7 kFinished
          (exampleTaskOutputFinished
            \<lparr>taskStats := (taskStats exampleTaskOutputFinished)\<lparr>executionEndTimeMs := 5, endTimeMs := 5\<rparr>\<rparr>)
          = (r, t'', evs)
        \<and> checkIfFinishedLocked 8 t'' = (Inr False, t''))
   \<and> isGroupedExecution (exampleTask\<lparr>isGroupedExecution := True, numFinishedDrivers := 1\<rparr>)
   \<and> (\<exists>t'. checkIfFinishedLocked 5 (exampleTask\<lparr>isGroupedExecution := True, numFinishedDrivers := 1\<rparr>)
          = (Inr True, t'))
   \<and> numFinishedDrivers (exampleTask\<lparr>isGroupedExecution := True, numFinishedDrivers := 1\<rparr>)
       = numTotalDrivers (exampleTask\<lparr>isGroupedExecution := True, numFinishedDrivers := 1\<rparr>)
   \<and> checkIfFinishedLocked 5 (exampleTask\<lparr>taskState := kFinished\<rparr>)
       = (Inr False, exampleTask\<lparr>taskState := kFinished\<rparr>)"
proof -
  let ?t = exampleTaskOutputFinished
  let ?t' = "?t\<lparr>taskStats := (taskStats ?t)\<lparr>executionEndTimeMs := 5, endTimeMs := 5\<rparr>\<rparr>"
  let ?g = "exampleTask\<lparr>isGroupedExecution := True, numFinishedDrivers := 1\<rparr>"
  let ?f = "exampleTask\<lparr>taskState := kFinished\<rparr>"
  obtain r t'' evs where tm: "terminate 7 kFinished ?t' = (r, t'', evs)"
    by (metis prod_cases3)
  have g: "checkIfFinishedLocked 5 ?g
      = (Inr True, ?g\<lparr>taskStats := (taskStats ?g)\<lparr>endTimeMs := 5\<rparr>\<rparr>)"
    by (simp add: checkIfFinishedLocked_def Let_def isRunningLocked_def hasPartitionedOutput_def
        exampleTask_sel exampleTask_sel2)
  note th1 = checkIfFinishedLocked_true [where t = ?t and now = 5 and t' = ?t' and now' = 7
      and r = r and t'' = t'' and evs = evs]
  note th2 = checkIfFinishedLocked_true [where t = ?g and now = 5
      and t' = "?g\<lparr>taskStats := (taskStats ?g)\<lparr>endTimeMs := 5\<rparr>\<rparr>"]
  note th3 = checkIfFinishedLocked_true [where t = ?f and now = 5]
  from th1 [THEN conjunct1] checkIfFinishedLocked_example
  have a: "isRunningLocked ?t"
    "\<exists>i. getOutputPipelineId ?t = Inr i
          \<and> numFinishedOutputDriversUngrouped ?t = numDriversOf ?t i"
    by (simp_all add: exampleTaskOutputFinished_sel)
  from th1 [THEN conjunct2, THEN conjunct2, THEN conjunct2] checkIfFinishedLocked_example tm
  have "checkIfFinishedLocked 8 t'' = (Inr False, t'')" by simp
  with tm have b: "\<exists>r t'' evs. terminate 7 kFinished ?t' = (r, t'', evs)
        \<and> checkIfFinishedLocked 8 t'' = (Inr False, t'')"
    by blast
  from th2 [THEN conjunct2, THEN conjunct1] g
  have c: "numFinishedDrivers ?g = numTotalDrivers ?g" by simp
  from th3 [THEN conjunct2, THEN conjunct2, THEN conjunct1]
  have d: "checkIfFinishedLocked 5 ?f = (Inr False, ?f)"
    by (simp add: isRunningLocked_def)
  have e: "\<exists>t'. checkIfFinishedLocked 5 ?g = (Inr True, t')" using g by blast
  show ?thesis
    using checkIfFinishedLocked_example a b c d e
    by (simp only: exampleTaskOutputFinished_sel simp_thms) simp
qed

text \<open>
  Claim C4 as stated fails on the task whose output pipeline has finished before the
  other pipeline: the call returns true while one of the two drivers has finished, and
  a second call, made before the task is terminated, returns true again.
\<close>

theorem checkIfFinishedLocked_early_counterexample:
  "fst (checkIfFinishedLocked 5 exampleTaskOutputFinished) = Inr True
   \<and> numFinishedDrivers exampleTaskOutputFinished = 1
   \<and> numTotalDrivers exampleTaskOutputFinished = 2
   \<and> fst (checkIfFinishedLocked 6 (snd (checkIfFinishedLocked 5 exampleTaskOutputFinished))) = Inr True"
  by (simp add: checkIfFinishedLocked_example exampleTaskOutputFinished_sel)
    (simp add: checkIfFinishedLocked_def Let_def exampleTaskOutputFinished_def exampleTask_def
      isRunningLocked_def getOutputPipelineId_def numDriversOf_def hasPartitionedOutput_def)

section \<open>Claim C8: resuming a task\<close>

subsection \<open>The two loops of resume\<close>

lemma resumeDriver_cong:
  "isExecutorSupplied t' = isExecutorSupplied t \<Longrightarrow> resumeDriver now t' d = resumeDriver now t d"
  by (simp add: resumeDriver_def)

lemma resumeDriver_Inr:
  "passesResumeCheck d \<Longrightarrow> resumeDriver now t d = Inr (resumed now t d)"
  unfolding passesResumeCheck_def resumed_def resumeDriver_def by auto

lemma resumeDriver_Inl:
  "\<not> passesResumeCheck d \<Longrightarrow>
     resumeDriver now t d
       = Inl (VeloxRuntimeError ''!driver->isOnThread() && !driver->isTerminated()'')"
  by (auto simp: passesResumeCheck_def resumeDriver_def)

lemma resumed_cong:
  "isExecutorSupplied t' = isExecutorSupplied t \<Longrightarrow> resumed now t' d = resumed now t d"
  by (simp add: resumed_def resumeDriver_def)

lemma resumeRunningLoop_frame:
  "resumeRunningLoop now i t = (r, t') \<Longrightarrow> t' = t\<lparr>drivers := drivers t'\<rparr>"
proof (induction now i t rule: resumeRunningLoop.induct)
  case (1 now i t)
  show ?case
  proof (cases "i < length (drivers t)")
    case False
    with "1.prems" show ?thesis by (subst (asm) resumeRunningLoop.simps) simp
  next
    case True
    show ?thesis
    proof (cases "drivers t ! i")
      case None
      with "1.prems" True have "resumeRunningLoop now (Suc i) t = (r, t')"
        by (subst (asm) resumeRunningLoop.simps) simp
      from "1.IH"(1) [OF True None this] show ?thesis .
    next
      case (Some d)
      show ?thesis
      proof (cases "resumeDriver now t d")
        case (Inl e)
        with "1.prems" True Some show ?thesis
          by (subst (asm) resumeRunningLoop.simps) simp
      next
        case (Inr d')
        with "1.prems" True Some
        have "resumeRunningLoop now (Suc i) (t\<lparr>drivers := (drivers t)[i := Some d']\<rparr>) = (r, t')"
          by (subst (asm) resumeRunningLoop.simps) simp
        from "1.IH"(2) [OF True Some Inr this]
        have "t' = (t\<lparr>drivers := (drivers t)[i := Some d']\<rparr>)\<lparr>drivers := drivers t'\<rparr>" .
        also have "\<dots> = t\<lparr>drivers := drivers t'\<rparr>" by simp
        finally show ?thesis .
      qed
    qed
  qed
qed

lemma resumeRunningLoop_ok:
  "\<forall>d. Some d \<in> set (drop i (drivers t)) \<longrightarrow> passesResumeCheck d \<Longrightarrow>
     resumeRunningLoop now i t =
       (None, t\<lparr>drivers := take i (drivers t) @ map (map_option (resumed now t)) (drop i (drivers t))\<rparr>)"
proof (induction now i t rule: resumeRunningLoop.induct)
  case (1 now i t)
  show ?case
  proof (cases "i < length (drivers t)")
    case False
    then show ?thesis by (subst resumeRunningLoop.simps) simp
  next
    case True
    then have dr: "drop i (drivers t) = drivers t ! i # drop (Suc i) (drivers t)"
      by (simp add: Cons_nth_drop_Suc)
    have rest: "\<forall>d. Some d \<in> set (drop (Suc i) (drivers t)) \<longrightarrow> passesResumeCheck d"
      using "1.prems" dr by simp
    show ?thesis
    proof (cases "drivers t ! i")
      case None
      have tk: "take (Suc i) (drivers t) = take i (drivers t) @ [None]"
        using True None by (simp add: take_Suc_conv_app_nth)
      from "1.IH"(1) [OF True None rest] True None show ?thesis
        by (subst resumeRunningLoop.simps) (simp add: dr tk)
    next
      case (Some d)
      have ok: "passesResumeCheck d" using "1.prems" dr Some by simp
      let ?t1 = "t\<lparr>drivers := (drivers t)[i := Some (resumed now t d)]\<rparr>"
      have rest1: "\<forall>d. Some d \<in> set (drop (Suc i) (drivers ?t1)) \<longrightarrow> passesResumeCheck d"
        using rest by simp
      have tk: "take (Suc i) (drivers ?t1) = take i (drivers t) @ [Some (resumed now t d)]"
        using True by (simp add: take_Suc_conv_app_nth)
      have rc: "resumed now ?t1 = resumed now t"
        by (rule ext) (rule resumed_cong, simp)
      from "1.IH"(2) [OF True Some resumeDriver_Inr [OF ok] rest1]
      have "resumeRunningLoop now (Suc i) ?t1 =
         (None, t\<lparr>drivers := take i (drivers t) @ [Some (resumed now t d)]
                     @ map (map_option (resumed now t)) (drop (Suc i) (drivers t))\<rparr>)"
        unfolding tk rc by simp
      with True Some show ?thesis
        by (subst resumeRunningLoop.simps) (simp add: dr resumeDriver_Inr [OF ok])
    qed
  qed
qed

lemma resumeTerminatedLoop_frame:
  "resumeTerminatedLoop i t acc = (r, t', ds) \<Longrightarrow>
     t' = t\<lparr>drivers := drivers t', numRunningDrivers := numRunningDrivers t',
            numFinishedDrivers := numFinishedDrivers t'\<rparr>
     \<and> (\<exists>more. ds = acc @ more)"
proof (induction i t acc rule: resumeTerminatedLoop.induct)
  case (1 i t acc)
  show ?case
  proof (cases "i < length (drivers t)")
    case False
    with "1.prems" show ?thesis by (subst (asm) resumeTerminatedLoop.simps) simp
  next
    case True
    show ?thesis
    proof (cases "drivers t ! i")
      case None
      with "1.prems" True have "resumeTerminatedLoop (Suc i) t acc = (r, t', ds)"
        by (subst (asm) resumeTerminatedLoop.simps) simp
      from "1.IH"(1) [OF True None this] show ?thesis .
    next
      case (Some d)
      show ?thesis
      proof (cases "onThread (state d)")
        case on: True
        show ?thesis
        proof (cases "isTerminated (state d)")
          case False
          with "1.prems" True Some on show ?thesis
            by (subst (asm) resumeTerminatedLoop.simps) simp
        next
          case tm: True
          with "1.prems" True Some on have "resumeTerminatedLoop (Suc i) t acc = (r, t', ds)"
            by (subst (asm) resumeTerminatedLoop.simps) simp
          from "1.IH"(2) [OF True Some on _ this] tm show ?thesis by blast
        qed
      next
        case off: False
        show ?thesis
        proof (cases "isTerminated (state d)")
          case tm: True
          with "1.prems" True Some off have "resumeTerminatedLoop (Suc i) t acc = (r, t', ds)"
            by (subst (asm) resumeTerminatedLoop.simps) simp
          from "1.IH"(3) [OF True Some off tm this] show ?thesis .
        next
          case al: False
          let ?t1 = "driverClosedLocked (t\<lparr>drivers := (drivers t)[i := None]\<rparr>)"
          let ?acc1 = "acc @ [d\<lparr>state := setThread ((state d)\<lparr>isTerminated := True\<rparr>)\<rparr>]"
          from "1.prems" True Some off al
          have "resumeTerminatedLoop (Suc i) ?t1 ?acc1 = (r, t', ds)"
            by (subst (asm) resumeTerminatedLoop.simps) simp
          from "1.IH"(4) [OF True Some off al this]
          have a: "t' = ?t1\<lparr>drivers := drivers t', numRunningDrivers := numRunningDrivers t',
               numFinishedDrivers := numFinishedDrivers t'\<rparr>"
            and b: "\<exists>more. ds = ?acc1 @ more" by simp_all
          have c: "?t1\<lparr>drivers := drivers t', numRunningDrivers := numRunningDrivers t',
               numFinishedDrivers := numFinishedDrivers t'\<rparr>
             = t\<lparr>drivers := drivers t', numRunningDrivers := numRunningDrivers t',
               numFinishedDrivers := numFinishedDrivers t'\<rparr>"
            by (subst driverClosedLocked_frame) simp
          from b have d: "\<exists>more. ds = acc @ more" by auto
          show ?thesis
            by (rule conjI [OF trans [OF a c] d])
        qed
      qed
    qed
  qed
qed


lemma driverClosedLocked_not_running:
  "\<not> isRunningLocked t \<Longrightarrow>
     driverClosedLocked t = t\<lparr>numFinishedDrivers := numFinishedDrivers t + 1\<rparr>"
  by (simp add: driverClosedLocked_def)

lemma closedByResume_Cons:
  "closedByResume (slot # slots) =
     (case slot of
        Some d \<Rightarrow>
          if offThreadAlive d
          then [d\<lparr>state := setThread ((state d)\<lparr>isTerminated := True\<rparr>)\<rparr>]
          else []
      | None \<Rightarrow> []) @ closedByResume slots"
  by (simp add: closedByResume_def)

lemma closedByResume_Nil [simp]: "closedByResume [] = []"
  by (simp add: closedByResume_def)

lemma resumeTerminatedLoop_ok:
  assumes "\<not> isRunningLocked t"
    and "\<forall>d. Some d \<in> set (drop i (drivers t)) \<and> onThread (state d) \<longrightarrow> isTerminated (state d)"
  shows "resumeTerminatedLoop i t acc =
     (None,
      t\<lparr>drivers := take i (drivers t) @ map slotAfterResume (drop i (drivers t)),
        numFinishedDrivers :=
          numFinishedDrivers t + of_nat (length (closedByResume (drop i (drivers t))))\<rparr>,
      acc @ closedByResume (drop i (drivers t)))"
  using assms
proof (induction i t acc rule: resumeTerminatedLoop.induct)
  case (1 i t acc)
  note nr = "1.prems"(1)
  show ?case
  proof (cases "i < length (drivers t)")
    case False
    then show ?thesis by (subst resumeTerminatedLoop.simps) simp
  next
    case True
    then have dr: "drop i (drivers t) = drivers t ! i # drop (Suc i) (drivers t)"
      by (simp add: Cons_nth_drop_Suc)
    have rest: "\<forall>d. Some d \<in> set (drop (Suc i) (drivers t)) \<and> onThread (state d)
        \<longrightarrow> isTerminated (state d)"
      using "1.prems"(2) dr by simp
    show ?thesis
    proof (cases "drivers t ! i")
      case None
      have tk: "take (Suc i) (drivers t) = take i (drivers t) @ [None]"
        using True None by (simp add: take_Suc_conv_app_nth)
      have e: "resumeTerminatedLoop i t acc = resumeTerminatedLoop (Suc i) t acc"
        using True None by (subst resumeTerminatedLoop.simps) simp
      from "1.IH"(1) [OF True None nr rest] show ?thesis
        unfolding e dr
        by (simp add: tk None closedByResume_Cons slotAfterResume_def)
    next
      case (Some d)
      have tk: "take (Suc i) (drivers t) = take i (drivers t) @ [Some d]"
        using True Some by (simp add: take_Suc_conv_app_nth)
      show ?thesis
      proof (cases "offThreadAlive d")
        case False
        have tm: "isTerminated (state d)"
          using "1.prems"(2) dr Some False by (auto simp: offThreadAlive_def)
        have e: "resumeTerminatedLoop i t acc = resumeTerminatedLoop (Suc i) t acc"
          using True Some tm by (subst resumeTerminatedLoop.simps) simp
        have ih: "resumeTerminatedLoop (Suc i) t acc =
           (None,
            t\<lparr>drivers := take (Suc i) (drivers t) @ map slotAfterResume (drop (Suc i) (drivers t)),
              numFinishedDrivers :=
                numFinishedDrivers t + of_nat (length (closedByResume (drop (Suc i) (drivers t))))\<rparr>,
            acc @ closedByResume (drop (Suc i) (drivers t)))"
        proof (cases "onThread (state d)")
          case True
          from "1.IH"(2) [OF \<open>i < length (drivers t)\<close> Some True _ nr rest] tm show ?thesis by simp
        next
          case off: False
          from "1.IH"(3) [OF True Some off tm nr rest] show ?thesis .
        qed
        show ?thesis
          unfolding e dr ih
          by (simp add: tk Some closedByResume_Cons slotAfterResume_def False)
      next
        case al: True
        then have off: "\<not> onThread (state d)" and ntm: "\<not> isTerminated (state d)"
          by (simp_all add: offThreadAlive_def)
        let ?d' = "d\<lparr>state := setThread ((state d)\<lparr>isTerminated := True\<rparr>)\<rparr>"
        let ?t0 = "t\<lparr>drivers := (drivers t)[i := None]\<rparr>"
        let ?t1 = "driverClosedLocked ?t0"
        have nr0: "\<not> isRunningLocked ?t0" using nr by (simp add: isRunningLocked_def)
        have t1: "?t1 = t\<lparr>drivers := (drivers t)[i := None],
                            numFinishedDrivers := numFinishedDrivers t + 1\<rparr>"
          by (simp add: driverClosedLocked_not_running [OF nr0])
        have nr1: "\<not> isRunningLocked ?t1" using nr by (simp add: t1 isRunningLocked_def)
        have rest1: "\<forall>d. Some d \<in> set (drop (Suc i) (drivers ?t1)) \<and> onThread (state d)
            \<longrightarrow> isTerminated (state d)"
          using rest by (simp add: t1)
        have e: "resumeTerminatedLoop i t acc = resumeTerminatedLoop (Suc i) ?t1 (acc @ [?d'])"
          using True Some off ntm by (subst resumeTerminatedLoop.simps) simp
        have tk1: "take (Suc i) (drivers ?t1) = take i (drivers t) @ [None]"
          using True by (simp add: t1 take_Suc_conv_app_nth)
        have dr1: "drop (Suc i) (drivers ?t1) = drop (Suc i) (drivers t)"
          by (simp add: t1)
        have nf1: "numFinishedDrivers ?t1 = numFinishedDrivers t + 1" by (simp add: t1)
        from "1.IH"(4) [OF True Some off ntm nr1 rest1]
        have "resumeTerminatedLoop (Suc i) ?t1 (acc @ [?d']) =
           (None,
            ?t1\<lparr>drivers := (take i (drivers t) @ [None])
                     @ map slotAfterResume (drop (Suc i) (drivers t)),
              numFinishedDrivers :=
                numFinishedDrivers t + 1
                  + of_nat (length (closedByResume (drop (Suc i) (drivers t))))\<rparr>,
            (acc @ [?d']) @ closedByResume (drop (Suc i) (drivers t)))"
          unfolding tk1 dr1 nf1 .
        then show ?thesis
          unfolding e dr
          by (simp add: t1 Some closedByResume_Cons slotAfterResume_def al)
      qed
    qed
  qed
qed


lemma resumed_enqueued:
  "passesResumeCheck d \<Longrightarrow>
     isEnqueued (state (resumed now t d)) =
       (isEnqueued (state d)
        \<or> (\<not> suspended (state d) \<and> \<not> hasBlockingFuture (state d) \<and> isExecutorSupplied t))"
  unfolding passesResumeCheck_def resumed_def resumeDriver_def enqueue_def by auto

lemma resumed_same:
  "suspended (state d) \<or> isEnqueued (state d) \<or> hasBlockingFuture (state d)
     \<or> \<not> isExecutorSupplied t \<Longrightarrow> resumed now t d = d"
  unfolding resumed_def resumeDriver_def by auto

lemma resume_running:
  assumes run: "isRunningLocked t"
    and ok: "\<forall>d. Some d \<in> set (drivers t) \<longrightarrow> passesResumeCheck d"
  shows "resume now t =
     (None,
      t\<lparr>pauseRequested := False, drivers := map (map_option (resumed now t)) (drivers t),
        resumePromises := []\<rparr>,
      map SetValue (resumePromises t))"
proof -
  let ?t1 = "t\<lparr>pauseRequested := False\<rparr>"
  have run1: "isRunningLocked ?t1" using run by (simp add: isRunningLocked_def)
  have ok1: "\<forall>d. Some d \<in> set (drop 0 (drivers ?t1)) \<longrightarrow> passesResumeCheck d"
    using ok by simp
  have rc: "resumed now ?t1 = resumed now t"
    by (rule ext) (rule resumed_cong, simp)
  from resumeRunningLoop_ok [OF ok1, of now]
  have "resumeRunningLoop now 0 ?t1 =
      (None, ?t1\<lparr>drivers := map (map_option (resumed now t)) (drivers t)\<rparr>)"
    by (simp add: rc)
  then show ?thesis
    using run1 by (simp add: resume_def Let_def)
qed

lemma resume_not_running:
  assumes nr: "\<not> isRunningLocked t"
    and ok: "\<forall>d. Some d \<in> set (drivers t) \<and> onThread (state d) \<longrightarrow> isTerminated (state d)"
  shows "resume now t =
     (None,
      t\<lparr>pauseRequested := False, drivers := map slotAfterResume (drivers t),
        numFinishedDrivers := numFinishedDrivers t + of_nat (length (closedByResume (drivers t))),
        resumePromises := []\<rparr>,
      map (\<lambda>d. CloseByTask (driverId d)) (closedByResume (drivers t))
      @ map SetValue (resumePromises t))"
proof -
  let ?t1 = "t\<lparr>pauseRequested := False\<rparr>"
  have nr1: "\<not> isRunningLocked ?t1" using nr by (simp add: isRunningLocked_def)
  have ok1: "\<forall>d. Some d \<in> set (drop 0 (drivers ?t1)) \<and> onThread (state d)
      \<longrightarrow> isTerminated (state d)"
    using ok by simp
  from resumeTerminatedLoop_ok [OF nr1 ok1, of "[]"]
  have "resumeTerminatedLoop 0 ?t1 [] =
      (None,
       ?t1\<lparr>drivers := map slotAfterResume (drivers t),
          numFinishedDrivers := numFinishedDrivers t + of_nat (length (closedByResume (drivers t)))\<rparr>,
       closedByResume (drivers t))"
    by simp
  then show ?thesis
    using nr1 by (simp add: resume_def Let_def)
qed

lemma resume_frame:
  assumes "resume now t = (err, t', evs)"
  shows "\<not> pauseRequested t'"
    and "err \<noteq> None \<Longrightarrow> resumePromises t' = resumePromises t \<and> (\<forall>p. SetValue p \<notin> set evs)"
    and "ResumeCall \<notin> set evs"
proof -
  let ?t1 = "t\<lparr>pauseRequested := False\<rparr>"
  show "\<not> pauseRequested t'"
  proof (cases "isRunningLocked ?t1")
    case True
    obtain r t2 where l: "resumeRunningLoop now 0 ?t1 = (r, t2)"
      by (cases "resumeRunningLoop now 0 ?t1")
    have "pauseRequested t2 = False"
      by (subst resumeRunningLoop_frame [OF l]) simp
    with assms True l show ?thesis
      by (auto simp: resume_def Let_def split: option.splits)
  next
    case False
    obtain r t2 ds where l: "resumeTerminatedLoop 0 ?t1 [] = (r, t2, ds)"
      by (metis prod_cases3)
    have "pauseRequested t2 = False"
      by (subst resumeTerminatedLoop_frame [OF l, THEN conjunct1]) simp
    with assms False l show ?thesis
      by (auto simp: resume_def Let_def split: option.splits)
  qed
  show "resumePromises t' = resumePromises t \<and> (\<forall>p. SetValue p \<notin> set evs)" if "err \<noteq> None"
  proof (cases "isRunningLocked ?t1")
    case True
    obtain r t2 where l: "resumeRunningLoop now 0 ?t1 = (r, t2)"
      by (cases "resumeRunningLoop now 0 ?t1")
    have "resumePromises t2 = resumePromises t"
      by (subst resumeRunningLoop_frame [OF l]) simp
    with assms True l that show ?thesis
      by (auto simp: resume_def Let_def split: option.splits)
  next
    case False
    obtain r t2 ds where l: "resumeTerminatedLoop 0 ?t1 [] = (r, t2, ds)"
      by (metis prod_cases3)
    have "resumePromises t2 = resumePromises t"
      by (subst resumeTerminatedLoop_frame [OF l, THEN conjunct1]) simp
    with assms False l that show ?thesis
      by (auto simp: resume_def Let_def split: option.splits)
  qed
  show "ResumeCall \<notin> set evs"
    using assms by (auto simp: resume_def Let_def split: option.splits prod.splits if_splits)
qed


text \<open>
  Claim C8 (as amended). \<^verbatim>\<open>Task::resume\<close> always clears \<open>pauseRequested\<close>. On a
  running task whose drivers all pass the check of the loop (each is suspended,
  enqueued, or off thread and not terminated) it returns normally, fulfils every pending
  resume promise and leaves none pending; a driver is enqueued afterwards exactly when
  it was enqueued before, or is not suspended, has no blocking future and the task has
  an executor; a driver that is suspended, enqueued, blocked on a future, or belongs to
  a task without executor is left as it is. On a task that no longer runs, and whose
  on-thread drivers are all terminated, it returns normally, fulfils every pending
  resume promise, and closes exactly the drivers that are off thread and not terminated:
  each is marked terminated, counted as finished, removed from its slot and closed by
  the task, while the on-thread and the terminated drivers stay as they are. When a
  check of a loop fails, no resume promise is fulfilled and all stay pending.
\<close>

theorem resume_cases:
  "(\<forall>err t' evs. resume now t = (err, t', evs) \<longrightarrow> \<not> pauseRequested t')
   \<and> (isRunningLocked t \<and> (\<forall>d. Some d \<in> set (drivers t) \<longrightarrow> passesResumeCheck d) \<longrightarrow>
        (\<exists>t'. resume now t = (None, t', map SetValue (resumePromises t))
           \<and> resumePromises t' = []
           \<and> drivers t' = map (map_option (resumed now t)) (drivers t)
           \<and> (\<forall>d. Some d \<in> set (drivers t) \<longrightarrow>
                 driverId (resumed now t d) = driverId d
                 \<and> (isEnqueued (state (resumed now t d)) \<longleftrightarrow>
                      isEnqueued (state d)
                      \<or> (\<not> suspended (state d) \<and> \<not> hasBlockingFuture (state d)
                          \<and> isExecutorSupplied t))
                 \<and> (suspended (state d) \<or> isEnqueued (state d) \<or> hasBlockingFuture (state d)
                      \<or> \<not> isExecutorSupplied t \<longrightarrow> resumed now t d = d))))
   \<and> (\<not> isRunningLocked t
        \<and> (\<forall>d. Some d \<in> set (drivers t) \<and> onThread (state d) \<longrightarrow> isTerminated (state d)) \<longrightarrow>
        (\<exists>t'. resume now t =
               (None, t',
                map (\<lambda>d. CloseByTask (driverId d)) (closedByResume (drivers t))
                @ map SetValue (resumePromises t))
           \<and> resumePromises t' = []
           \<and> drivers t' = map slotAfterResume (drivers t)
           \<and> numFinishedDrivers t' =
               numFinishedDrivers t + of_nat (length (closedByResume (drivers t)))
           \<and> numRunningDrivers t' = numRunningDrivers t))
   \<and> (\<forall>e t' evs. resume now t = (Some e, t', evs) \<longrightarrow>
        resumePromises t' = resumePromises t \<and> (\<forall>p. SetValue p \<notin> set evs))"
proof -
  have p1: "\<forall>err t' evs. resume now t = (err, t', evs) \<longrightarrow> \<not> pauseRequested t'"
    using resume_frame(1) by blast
  have p2: "isRunningLocked t \<and> (\<forall>d. Some d \<in> set (drivers t) \<longrightarrow> passesResumeCheck d) \<longrightarrow>
        (\<exists>t'. resume now t = (None, t', map SetValue (resumePromises t))
           \<and> resumePromises t' = []
           \<and> drivers t' = map (map_option (resumed now t)) (drivers t)
           \<and> (\<forall>d. Some d \<in> set (drivers t) \<longrightarrow>
                 driverId (resumed now t d) = driverId d
                 \<and> (isEnqueued (state (resumed now t d)) \<longleftrightarrow>
                      isEnqueued (state d)
                      \<or> (\<not> suspended (state d) \<and> \<not> hasBlockingFuture (state d)
                          \<and> isExecutorSupplied t))
                 \<and> (suspended (state d) \<or> isEnqueued (state d) \<or> hasBlockingFuture (state d)
                      \<or> \<not> isExecutorSupplied t \<longrightarrow> resumed now t d = d)))"
  proof
    assume a: "isRunningLocked t \<and> (\<forall>d. Some d \<in> set (drivers t) \<longrightarrow> passesResumeCheck d)"
    then have run: "isRunningLocked t"
      and ok: "\<forall>d. Some d \<in> set (drivers t) \<longrightarrow> passesResumeCheck d" by simp_all
    let ?t' = "t\<lparr>pauseRequested := False, drivers := map (map_option (resumed now t)) (drivers t),
        resumePromises := []\<rparr>"
    have id: "driverId (resumed now t d) = driverId d" for d
      unfolding resumed_def resumeDriver_def enqueue_def by auto
    have each: "\<forall>d. Some d \<in> set (drivers t) \<longrightarrow>
                 driverId (resumed now t d) = driverId d
                 \<and> (isEnqueued (state (resumed now t d)) \<longleftrightarrow>
                      isEnqueued (state d)
                      \<or> (\<not> suspended (state d) \<and> \<not> hasBlockingFuture (state d)
                          \<and> isExecutorSupplied t))
                 \<and> (suspended (state d) \<or> isEnqueued (state d) \<or> hasBlockingFuture (state d)
                      \<or> \<not> isExecutorSupplied t \<longrightarrow> resumed now t d = d)"
      using ok resumed_enqueued [of _ now t] resumed_same [of _ t now] id by blast
    have "resume now t = (None, ?t', map SetValue (resumePromises t))"
      by (rule resume_running [OF run ok])
    moreover have "resumePromises ?t' = []" by simp
    moreover have "drivers ?t' = map (map_option (resumed now t)) (drivers t)" by simp
    ultimately show "\<exists>t'. resume now t = (None, t', map SetValue (resumePromises t))
           \<and> resumePromises t' = []
           \<and> drivers t' = map (map_option (resumed now t)) (drivers t)
           \<and> (\<forall>d. Some d \<in> set (drivers t) \<longrightarrow>
                 driverId (resumed now t d) = driverId d
                 \<and> (isEnqueued (state (resumed now t d)) \<longleftrightarrow>
                      isEnqueued (state d)
                      \<or> (\<not> suspended (state d) \<and> \<not> hasBlockingFuture (state d)
                          \<and> isExecutorSupplied t))
                 \<and> (suspended (state d) \<or> isEnqueued (state d) \<or> hasBlockingFuture (state d)
                      \<or> \<not> isExecutorSupplied t \<longrightarrow> resumed now t d = d))"
      using each by (intro exI [of _ ?t'] conjI)
  qed
  have p3: "\<not> isRunningLocked t
        \<and> (\<forall>d. Some d \<in> set (drivers t) \<and> onThread (state d) \<longrightarrow> isTerminated (state d)) \<longrightarrow>
        (\<exists>t'. resume now t =
               (None, t',
                map (\<lambda>d. CloseByTask (driverId d)) (closedByResume (drivers t))
                @ map SetValue (resumePromises t))
           \<and> resumePromises t' = []
           \<and> drivers t' = map slotAfterResume (drivers t)
           \<and> numFinishedDrivers t' =
               numFinishedDrivers t + of_nat (length (closedByResume (drivers t)))
           \<and> numRunningDrivers t' = numRunningDrivers t)"
  proof
    assume a: "\<not> isRunningLocked t
        \<and> (\<forall>d. Some d \<in> set (drivers t) \<and> onThread (state d) \<longrightarrow> isTerminated (state d))"
    then have nr: "\<not> isRunningLocked t"
      and ok: "\<forall>d. Some d \<in> set (drivers t) \<and> onThread (state d) \<longrightarrow> isTerminated (state d)"
      by simp_all
    let ?t' = "t\<lparr>pauseRequested := False, drivers := map slotAfterResume (drivers t),
        numFinishedDrivers := numFinishedDrivers t + of_nat (length (closedByResume (drivers t))),
        resumePromises := []\<rparr>"
    have "resume now t =
       (None, ?t',
        map (\<lambda>d. CloseByTask (driverId d)) (closedByResume (drivers t))
        @ map SetValue (resumePromises t))"
      by (rule resume_not_running [OF nr ok])
    then show "\<exists>t'. resume now t =
               (None, t',
                map (\<lambda>d. CloseByTask (driverId d)) (closedByResume (drivers t))
                @ map SetValue (resumePromises t))
           \<and> resumePromises t' = []
           \<and> drivers t' = map slotAfterResume (drivers t)
           \<and> numFinishedDrivers t' =
               numFinishedDrivers t + of_nat (length (closedByResume (drivers t)))
           \<and> numRunningDrivers t' = numRunningDrivers t"
      by (intro exI [of _ ?t']) simp
  qed
  have p4: "\<forall>e t' evs. resume now t = (Some e, t', evs) \<longrightarrow>
        resumePromises t' = resumePromises t \<and> (\<forall>p. SetValue p \<notin> set evs)"
    using resume_frame(2) by blast
  show ?thesis
    by (rule conjI [OF p1 conjI [OF p2 conjI [OF p3 p4]]])
qed


text \<open>
  The statement on three tasks with one pending resume promise: a running task with an
  executor, whose driver is enqueued; a failed task with a driver off thread, which is
  closed, and a terminated driver on thread, which stays; and a running task with a
  driver on thread, where the check fails and the promise stays pending.
\<close>

theorem resume_cases_witness:
  "isRunningLocked (exampleTask\<lparr>isExecutorSupplied := True, pauseRequested := True,
                                resumePromises := [3], promiseCounter := 4\<rparr>)
   \<and> passesResumeCheck exampleDriver
   \<and> (\<exists>t'. resume 100 (exampleTask\<lparr>isExecutorSupplied := True, pauseRequested := True,
                                    resumePromises := [3], promiseCounter := 4\<rparr>)
              = (None, t', [SetValue 3])
          \<and> pauseRequested t' = False \<and> resumePromises t' = []
          \<and> drivers t' = [Some (enqueue exampleDriver)])
   \<and> taskState (exampleTask\<lparr>taskState := kFailed, pauseRequested := True,
                            resumePromises := [3], promiseCounter := 4,
                            drivers := [Some exampleDriver, Some exampleTerminatedDriver]\<rparr>) = kFailed
   \<and> (\<exists>t'. resume 100 (exampleTask\<lparr>taskState := kFailed, pauseRequested := True,
                                    resumePromises := [3], promiseCounter := 4,
                                    drivers := [Some exampleDriver, Some exampleTerminatedDriver]\<rparr>)
              = (None, t', [CloseByTask 0, SetValue 3])
          \<and> pauseRequested t' = False \<and> resumePromises t' = []
          \<and> drivers t' = [None, Some exampleTerminatedDriver]
          \<and> numFinishedDrivers t' = 1 \<and> numRunningDrivers t' = 1)
   \<and> (\<exists>e t'. resume 100 (exampleTask\<lparr>pauseRequested := True, resumePromises := [3],
                                      promiseCounter := 4,
                                      drivers := [Some exampleOnThreadDriver]\<rparr>)
              = (Some e, t', [])
          \<and> pauseRequested t' = False \<and> resumePromises t' = [3])"
proof -
  let ?a = "exampleTask\<lparr>isExecutorSupplied := True, pauseRequested := True,
                        resumePromises := [3], promiseCounter := 4\<rparr>"
  let ?b = "exampleTask\<lparr>taskState := kFailed, pauseRequested := True,
                        resumePromises := [3], promiseCounter := 4,
                        drivers := [Some exampleDriver, Some exampleTerminatedDriver]\<rparr>"
  let ?c = "exampleTask\<lparr>pauseRequested := True, resumePromises := [3], promiseCounter := 4,
                        drivers := [Some exampleOnThreadDriver]\<rparr>"
  have runa: "isRunningLocked ?a" by (simp add: isRunningLocked_def exampleTask_sel)
  have chk: "passesResumeCheck exampleDriver"
    by (simp add: passesResumeCheck_def exampleDriver_def)
  have ra: "resumed 100 ?a exampleDriver = enqueue exampleDriver"
    by (simp add: resumed_def resumeDriver_def exampleDriver_def suspended_def)
  have oka: "\<forall>d. Some d \<in> set (drivers ?a) \<longrightarrow> passesResumeCheck d"
    using chk by (simp add: exampleTask_sel)
  note tha = resume_cases [of 100 ?a]
  from tha [THEN conjunct2, THEN conjunct1, THEN mp, OF conjI [OF runa oka]]
  obtain ta where ta: "resume 100 ?a = (None, ta, map SetValue (resumePromises ?a))"
    "resumePromises ta = []"
    "drivers ta = map (map_option (resumed 100 ?a)) (drivers ?a)"
    by blast
  from tha [THEN conjunct1] ta(1) have pa: "pauseRequested ta = False" by blast
  have A: "\<exists>t'. resume 100 ?a = (None, t', [SetValue 3])
          \<and> pauseRequested t' = False \<and> resumePromises t' = []
          \<and> drivers t' = [Some (enqueue exampleDriver)]"
    using ta pa by (intro exI [of _ ta]) (simp add: exampleTask_sel ra)
  have stb: "taskState ?b = kFailed" by simp
  have nrb: "\<not> isRunningLocked ?b" by (simp add: isRunningLocked_def)
  have okb: "\<forall>d. Some d \<in> set (drivers ?b) \<and> onThread (state d) \<longrightarrow> isTerminated (state d)"
    by (auto simp: exampleDriver_def exampleTerminatedDriver_def)
  have cb: "closedByResume (drivers ?b)
      = [exampleDriver\<lparr>state := setThread ((state exampleDriver)\<lparr>isTerminated := True\<rparr>)\<rparr>]"
    by (simp add: closedByResume_def offThreadAlive_def exampleDriver_def exampleTerminatedDriver_def)
  have sb: "map slotAfterResume (drivers ?b) = [None, Some exampleTerminatedDriver]"
    by (simp add: slotAfterResume_def offThreadAlive_def exampleDriver_def exampleTerminatedDriver_def)
  note thb = resume_cases [of 100 ?b]
  from thb [THEN conjunct2, THEN conjunct2, THEN conjunct1, THEN mp, OF conjI [OF nrb okb]]
  obtain tb where tb: "resume 100 ?b =
               (None, tb,
                map (\<lambda>d. CloseByTask (driverId d)) (closedByResume (drivers ?b))
                @ map SetValue (resumePromises ?b))"
    "resumePromises tb = []"
    "drivers tb = map slotAfterResume (drivers ?b)"
    "numFinishedDrivers tb = numFinishedDrivers ?b + of_nat (length (closedByResume (drivers ?b)))"
    "numRunningDrivers tb = numRunningDrivers ?b"
    by blast
  from thb [THEN conjunct1] tb(1) have pb: "pauseRequested tb = False" by blast
  have B: "\<exists>t'. resume 100 ?b = (None, t', [CloseByTask 0, SetValue 3])
          \<and> pauseRequested t' = False \<and> resumePromises t' = []
          \<and> drivers t' = [None, Some exampleTerminatedDriver]
          \<and> numFinishedDrivers t' = 1 \<and> numRunningDrivers t' = 1"
    using tb pb unfolding cb sb
    by (intro exI [of _ tb]) (simp add: exampleTask_sel2 exampleDriver_def)
  obtain e where rc: "resume 100 ?c = (Some e, ?c\<lparr>pauseRequested := False\<rparr>, [])"
    by (simp add: resume_def Let_def isRunningLocked_def exampleTask_sel
        resumeRunningLoop.simps [of _ 0] resumeDriver_def exampleOnThreadDriver_def
        exampleDriver_def suspended_def)
  note thc = resume_cases [of 100 ?c]
  from thc [THEN conjunct1] rc have pc: "pauseRequested (?c\<lparr>pauseRequested := False\<rparr>) = False"
    by simp
  from thc [THEN conjunct2, THEN conjunct2, THEN conjunct2] rc
  have qc: "resumePromises (?c\<lparr>pauseRequested := False\<rparr>) = resumePromises ?c" by blast
  have C: "\<exists>e t'. resume 100 ?c = (Some e, t', [])
          \<and> pauseRequested t' = False \<and> resumePromises t' = [3]"
    using rc pc qc by (intro exI [of _ e] exI [of _ "?c\<lparr>pauseRequested := False\<rparr>"]) simp
  show ?thesis
    by (rule conjI [OF runa conjI [OF chk conjI [OF A conjI [OF stb conjI [OF B C]]]]])
qed

text \<open>
  Claim C8 as stated fails on a running task whose driver waits on a blocking future:
  the driver exists, is neither suspended nor enqueued, and \<^verbatim>\<open>resume\<close> returns
  without enqueuing it; the driver is enqueued later by the realization of its future.
  The same holds for every driver of a task without an executor (serial execution).
\<close>

theorem resume_blocked_driver_counterexample:
  "isRunningLocked (exampleTask\<lparr>isExecutorSupplied := True, pauseRequested := True,
                                drivers := [Some exampleBlockedDriver]\<rparr>)
   \<and> suspended (state exampleBlockedDriver) = False
   \<and> isEnqueued (state exampleBlockedDriver) = False
   \<and> fst (resume 100 (exampleTask\<lparr>isExecutorSupplied := True, pauseRequested := True,
                                   drivers := [Some exampleBlockedDriver]\<rparr>)) = None
   \<and> drivers (fst (snd (resume 100 (exampleTask\<lparr>isExecutorSupplied := True,
                                        pauseRequested := True,
                                        drivers := [Some exampleBlockedDriver]\<rparr>))))
       = [Some exampleBlockedDriver]
   \<and> fst (resume 100 exampleTask) = None
   \<and> drivers (fst (snd (resume 100 exampleTask))) = [Some exampleDriver]
   \<and> isEnqueued (state exampleDriver) = False"
proof -
  let ?t = "exampleTask\<lparr>isExecutorSupplied := True, pauseRequested := True,
                        drivers := [Some exampleBlockedDriver]\<rparr>"
  have run: "isRunningLocked ?t" by (simp add: isRunningLocked_def exampleTask_sel)
  have st: "suspended (state exampleBlockedDriver) = False"
    "isEnqueued (state exampleBlockedDriver) = False"
    "isEnqueued (state exampleDriver) = False"
    by (simp_all add: exampleBlockedDriver_def exampleDriver_def suspended_def)
  have ok: "\<forall>d. Some d \<in> set (drivers ?t) \<longrightarrow> passesResumeCheck d"
    by (simp add: passesResumeCheck_def exampleBlockedDriver_def exampleDriver_def)
  have same: "resumed 100 ?t exampleBlockedDriver = exampleBlockedDriver"
    by (rule resumed_same) (simp add: exampleBlockedDriver_def)
  have r1: "fst (resume 100 ?t) = None"
    "drivers (fst (snd (resume 100 ?t))) = [Some exampleBlockedDriver]"
    by (simp_all add: resume_running [OF run ok] same)
  have run2: "isRunningLocked exampleTask" by (simp add: isRunningLocked_def exampleTask_sel)
  have ok2: "\<forall>d. Some d \<in> set (drivers exampleTask) \<longrightarrow> passesResumeCheck d"
    by (simp add: exampleTask_sel passesResumeCheck_def exampleDriver_def)
  have same2: "resumed 100 exampleTask exampleDriver = exampleDriver"
    by (rule resumed_same) (simp add: exampleTask_sel2)
  have r2: "fst (resume 100 exampleTask) = None"
    "drivers (fst (snd (resume 100 exampleTask))) = [Some exampleDriver]"
    by (simp_all add: resume_running [OF run2 ok2] same2 exampleTask_sel)
  show ?thesis
    using run st r1 r2 by simp
qed

section \<open>Claim C2: memory reclaim resumes the task\<close>

lemma terminate_no_resume:
  assumes "terminate now s t = (r, t', evs)"
  shows "count_list evs ResumeCall = 0"
proof (cases "isRunningLocked t")
  case False
  from terminate_not_running [OF False, of now s] assms show ?thesis by auto
next
  case run: True
  show ?thesis
  proof (cases "terminationTimeMs (taskStats t) = 0")
    case False
    from terminate_check_termination_time [OF run False, of now s] assms show ?thesis by auto
  next
    case tt: True
    show ?thesis
    proof (cases "s = kFinished \<or> \<not> cancellationRequested t")
      case True
      from terminate_running_counts(2) [OF run tt True assms] show ?thesis .
    next
      case False
      then have "s \<noteq> kFinished" "cancellationRequested t" by auto
      from terminate_check_cancellation [OF run tt this, of now] assms show ?thesis by auto
    qed
  qed
qed

lemma setError_no_resume:
  assumes "setError now e t = (err, t', evs)"
  shows "count_list evs ResumeCall = 0"
proof (cases "\<not> isRunningLocked t \<or> exception t \<noteq> None")
  case True
  from setError_noop [OF True, of now e] assms show ?thesis by simp
next
  case False
  obtain r t1 evs1 where tm: "terminate now kFailed (t\<lparr>exception := e\<rparr>) = (r, t1, evs1)"
    by (metis prod_cases3)
  from terminate_no_resume [OF tm] have "count_list evs1 ResumeCall = 0" .
  with assms False tm show ?thesis
    by (auto simp: setError_def split: sum.splits)
qed

lemma setError_failed:
  assumes "isRunningLocked t" and "exception t = None" and "setError now e t = (err, t', evs)"
  shows "taskState t' = kFailed \<and> exception t' = e"
proof -
  obtain r t1 evs1 where tm: "terminate now kFailed (t\<lparr>exception := e\<rparr>) = (r, t1, evs1)"
    by (metis prod_cases3)
  have run: "isRunningLocked (t\<lparr>exception := e\<rparr>)"
    using assms(1) by (simp add: isRunningLocked_def)
  from terminate_state [OF run tm] terminate_failed_exception [OF run tm]
  have "taskState t1 = kFailed" "exception t1 = e" by simp_all
  moreover from assms tm have "t' = t1"
    by (auto simp: setError_def split: sum.splits)
  ultimately show ?thesis by simp
qed

lemma resume_fields:
  assumes "resume now t = (err, t', evs)"
  shows "taskState t' = taskState t" and "exception t' = exception t"
proof -
  let ?t1 = "t\<lparr>pauseRequested := False\<rparr>"
  have "taskState t' = taskState t \<and> exception t' = exception t"
  proof (cases "isRunningLocked ?t1")
    case True
    obtain r t2 where l: "resumeRunningLoop now 0 ?t1 = (r, t2)"
      by (cases "resumeRunningLoop now 0 ?t1")
    have "taskState t2 = taskState t" "exception t2 = exception t"
      by (subst resumeRunningLoop_frame [OF l], simp)+
    with assms True l show ?thesis
      by (auto simp: resume_def Let_def split: option.splits)
  next
    case False
    obtain r t2 ds where l: "resumeTerminatedLoop 0 ?t1 [] = (r, t2, ds)"
      by (metis prod_cases3)
    have "taskState t2 = taskState t" "exception t2 = exception t"
      by (subst resumeTerminatedLoop_frame [OF l, THEN conjunct1], simp)+
    with assms False l show ?thesis
      by (auto simp: resume_def Let_def split: option.splits)
  qed
  then show "taskState t' = taskState t" and "exception t' = exception t" by simp_all
qed

text \<open>The scope guard: one call of resume after everything else.\<close>

lemma resumeGuard_once:
  assumes "resumeGuard env (result, t, evs) = (r, t', evs')"
  shows "r = result" and "\<not> pauseRequested t'"
    and "count_list evs' ResumeCall = Suc (count_list evs ResumeCall)"
    and "taskState t' = taskState t" and "exception t' = exception t"
proof -
  obtain err t1 evs1 where rs: "resume (resumeMs env) t = (err, t1, evs1)"
    by (metis prod_cases3)
  from assms rs have e: "r = result" "t' = t1"
    "evs' = evs @ [ResumeCall] @ evs1 @ (case err of Some e \<Rightarrow> [LogWarning] | None \<Rightarrow> [])"
    by (simp_all add: resumeGuard_def)
  show "r = result" by (rule e(1))
  show "\<not> pauseRequested t'" using resume_frame(1) [OF rs] e(2) by simp
  have "count_list evs1 ResumeCall = 0"
    using resume_frame(3) [OF rs] by simp
  then show "count_list evs' ResumeCall = Suc (count_list evs ResumeCall)"
    unfolding e(3) by (simp split: option.splits)
  show "taskState t' = taskState t" "exception t' = exception t"
    using resume_fields [OF rs] e(2) by simp_all
qed

lemma requestPause_result:
  "requestPause t =
     (promiseCounter t,
      t\<lparr>pauseRequested := True, promiseCounter := Suc (promiseCounter t),
        threadFinishPromises :=
          (if numThreads t = 0 then threadFinishPromises t
           else threadFinishPromises t @ [promiseCounter t])\<rparr>,
      if numThreads t = 0 then [SetValue (promiseCounter t)] else [])"
  by (simp add: requestPause_def makeFinishFutureLocked_result)


lemma reclaimTask_eq:
  "reclaimTask env maxWaitMs t =
     (if maxWaitMs = 0 \<and> \<not> (numThreads t = 0 \<or> waitEnds env = Satisfied) then None
      else Some (resumeGuard env (reclaimBody env t)))"
proof -
  have p: "(SetValue (promiseCounter t)
        \<in> set (if numThreads t = 0 then [SetValue (promiseCounter t)] else [])
      \<or> waitEnds env = Satisfied) = (numThreads t = 0 \<or> waitEnds env = Satisfied)"
    by simp
  show ?thesis
    unfolding reclaimTask_def reclaimBody_def requestPause_result prod.case Let_def p ..
qed

lemma reclaimBody_no_resume:
  "reclaimBody env t = (result, t0, evs0) \<Longrightarrow> count_list evs0 ResumeCall = 0"
proof -
  assume a: "reclaimBody env t = (result, t0, evs0)"
  let ?p = "promiseCounter t"
  let ?evs1 = "if numThreads t = 0 then [SetValue ?p] else []"
  have c1: "count_list ?evs1 ResumeCall = 0" by simp
  show ?thesis
  proof (cases "\<not> (numThreads t = 0 \<or> waitEnds env = Satisfied)
      \<or> isCancelled env (duringWait env (fst (snd (requestPause t))))")
    case True
    with a have "evs0 = ?evs1"
      unfolding reclaimBody_def requestPause_result prod.case Let_def fst_conv snd_conv
      by (auto split: if_splits)
    with c1 show ?thesis by simp
  next
    case False
    show ?thesis
    proof (cases "poolReclaim env")
      case (Inr b)
      with a False have "evs0 = ?evs1"
        unfolding reclaimBody_def requestPause_result prod.case Let_def fst_conv snd_conv
        by (auto split: if_splits)
      with c1 show ?thesis by simp
    next
      case (Inl msg)
      obtain err t3 evs3 where
        se: "setError (nowMs env) (Some msg) (duringWait env (fst (snd (requestPause t))))
              = (err, t3, evs3)"
        by (metis prod_cases3)
      from a False Inl se have "evs0 = ?evs1 @ evs3"
        unfolding reclaimBody_def requestPause_result prod.case Let_def fst_conv snd_conv
        by (auto split: if_splits option.splits)
      with c1 setError_no_resume [OF se] show ?thesis by simp
    qed
  qed
qed


text \<open>
  Claim C2. Whenever \<^verbatim>\<open>reclaimTask\<close> returns or throws, \<^verbatim>\<open>Task::resume\<close> has been
  called exactly once in the invocation, by the scope guard after everything else, and
  the task is left with \<open>pauseRequested\<close> cleared. With a non-zero \<open>maxWaitMs\<close> the
  invocation always returns or throws; when the future of \<^verbatim>\<open>requestPause\<close> is not
  fulfilled in that time (threads are running and the wait is not satisfied) it throws
  the runtime error of the failed wait. When the task is paused and not cancelled and
  the reclaim of the pool tree throws, the invocation throws as well, after
  \<^verbatim>\<open>setError\<close>: a task that was running without an exception is left failed with
  the exception of the pool. When the reclaimer still has its task and is called for
  the pool of the task, the same holds of \<^verbatim>\<open>MemoryReclaimer::reclaim\<close>: it ends
  when \<^verbatim>\<open>reclaimTask\<close> ends, throws what \<^verbatim>\<open>reclaimTask\<close> throws, and has
  called resume exactly once when it returns or throws.
\<close>

theorem reclaim_resumes_once:
  "(\<forall>r t' evs. reclaimTask env maxWaitMs t = Some (r, t', evs) \<longrightarrow>
       count_list evs ResumeCall = 1 \<and> \<not> pauseRequested t')
   \<and> (maxWaitMs \<noteq> 0 \<longrightarrow> reclaimTask env maxWaitMs t \<noteq> None)
   \<and> (maxWaitMs \<noteq> 0 \<and> numThreads t \<noteq> 0 \<and> waitEnds env \<noteq> Satisfied \<longrightarrow>
        (\<exists>t' evs. reclaimTask env maxWaitMs t =
           Some (Inl (VeloxRuntimeError ''Memory reclaim failed to wait for task to pause''),
                 t', evs)))
   \<and> ((numThreads t = 0 \<or> waitEnds env = Satisfied)
        \<and> \<not> isCancelled env (duringWait env (fst (snd (requestPause t))))
        \<and> poolReclaim env = Inl msg \<longrightarrow>
        (\<exists>e t' evs. reclaimTask env maxWaitMs t = Some (Inl e, t', evs)
           \<and> (isRunningLocked (duringWait env (fst (snd (requestPause t))))
               \<and> exception (duringWait env (fst (snd (requestPause t)))) = None \<longrightarrow>
               taskState t' = kFailed \<and> exception t' = Some msg)))
   \<and> (taskAlive env \<and> poolNameMatches env \<longrightarrow>
        (reclaim env maxWaitMs t = None \<longleftrightarrow> reclaimTask env maxWaitMs t = None)
        \<and> (\<forall>e t' evs. reclaimTask env maxWaitMs t = Some (Inl e, t', evs) \<longrightarrow>
               reclaim env maxWaitMs t = Some (Inl e, t', evs))
        \<and> (\<forall>r t' evs. reclaim env maxWaitMs t = Some (r, t', evs) \<longrightarrow>
               count_list evs ResumeCall = 1 \<and> \<not> pauseRequested t'))"
proof -
  let ?paused = "numThreads t = 0 \<or> waitEnds env = Satisfied"
  let ?t2 = "duringWait env (fst (snd (requestPause t)))"
  obtain result t0 evs0 where body: "reclaimBody env t = (result, t0, evs0)"
    by (metis prod_cases3)
  obtain r1 t1 evs1 where guard: "resumeGuard env (result, t0, evs0) = (r1, t1, evs1)"
    by (metis prod_cases3)
  note g = resumeGuard_once [OF guard]
  have c0: "count_list evs0 ResumeCall = 0" by (rule reclaimBody_no_resume [OF body])
  have eq: "reclaimTask env maxWaitMs t =
      (if maxWaitMs = 0 \<and> \<not> ?paused then None else Some (r1, t1, evs1))"
    by (simp add: reclaimTask_eq body guard)
  have p1: "\<forall>r t' evs. reclaimTask env maxWaitMs t = Some (r, t', evs) \<longrightarrow>
       count_list evs ResumeCall = 1 \<and> \<not> pauseRequested t'"
    using g(2,3) c0 by (auto simp: eq split: if_splits)
  have p2: "maxWaitMs \<noteq> 0 \<longrightarrow> reclaimTask env maxWaitMs t \<noteq> None"
    by (simp add: eq)
  have p3: "maxWaitMs \<noteq> 0 \<and> numThreads t \<noteq> 0 \<and> waitEnds env \<noteq> Satisfied \<longrightarrow>
        (\<exists>t' evs. reclaimTask env maxWaitMs t =
           Some (Inl (VeloxRuntimeError ''Memory reclaim failed to wait for task to pause''),
                 t', evs))"
  proof
    assume a: "maxWaitMs \<noteq> 0 \<and> numThreads t \<noteq> 0 \<and> waitEnds env \<noteq> Satisfied"
    with body have "result = Inl (VeloxRuntimeError ''Memory reclaim failed to wait for task to pause'')"
      unfolding reclaimBody_def requestPause_result prod.case Let_def by simp
    with g(1) a show "\<exists>t' evs. reclaimTask env maxWaitMs t =
           Some (Inl (VeloxRuntimeError ''Memory reclaim failed to wait for task to pause''),
                 t', evs)"
      by (simp add: eq)
  qed
  have p4: "?paused \<and> \<not> isCancelled env ?t2 \<and> poolReclaim env = Inl msg \<longrightarrow>
        (\<exists>e t' evs. reclaimTask env maxWaitMs t = Some (Inl e, t', evs)
           \<and> (isRunningLocked ?t2 \<and> exception ?t2 = None \<longrightarrow>
               taskState t' = kFailed \<and> exception t' = Some msg))"
  proof
    assume a: "?paused \<and> \<not> isCancelled env ?t2 \<and> poolReclaim env = Inl msg"
    obtain err t3 evs3 where se: "setError (nowMs env) (Some msg) ?t2 = (err, t3, evs3)"
      by (metis prod_cases3)
    from body a se have b: "t0 = t3 \<and> (\<exists>e. result = Inl e)"
      unfolding reclaimBody_def requestPause_result prod.case Let_def fst_conv snd_conv
      by (auto split: option.splits)
    then obtain e where e: "result = Inl e" by blast
    have f: "isRunningLocked ?t2 \<and> exception ?t2 = None \<longrightarrow>
        taskState t1 = kFailed \<and> exception t1 = Some msg"
      using setError_failed [OF _ _ se] g(4,5) b by simp
    have "reclaimTask env maxWaitMs t = Some (Inl e, t1, evs1)"
      using a g(1) e by (simp add: eq)
    with f show "\<exists>e t' evs. reclaimTask env maxWaitMs t = Some (Inl e, t', evs)
           \<and> (isRunningLocked ?t2 \<and> exception ?t2 = None \<longrightarrow>
               taskState t' = kFailed \<and> exception t' = Some msg)"
      by blast
  qed
  have p5: "taskAlive env \<and> poolNameMatches env \<longrightarrow>
        (reclaim env maxWaitMs t = None \<longleftrightarrow> reclaimTask env maxWaitMs t = None)
        \<and> (\<forall>e t' evs. reclaimTask env maxWaitMs t = Some (Inl e, t', evs) \<longrightarrow>
               reclaim env maxWaitMs t = Some (Inl e, t', evs))
        \<and> (\<forall>r t' evs. reclaim env maxWaitMs t = Some (r, t', evs) \<longrightarrow>
               count_list evs ResumeCall = 1 \<and> \<not> pauseRequested t')"
  proof
    assume a: "taskAlive env \<and> poolNameMatches env"
    have q1: "reclaim env maxWaitMs t = None \<longleftrightarrow> reclaimTask env maxWaitMs t = None"
      using a by (auto simp: reclaim_def split: option.splits sum.splits prod.splits)
    have q2: "\<forall>e t' evs. reclaimTask env maxWaitMs t = Some (Inl e, t', evs) \<longrightarrow>
               reclaim env maxWaitMs t = Some (Inl e, t', evs)"
      using a by (simp add: reclaim_def)
    have q3: "\<forall>r t' evs. reclaim env maxWaitMs t = Some (r, t', evs) \<longrightarrow>
               count_list evs ResumeCall = 1 \<and> \<not> pauseRequested t'"
    proof (intro allI impI)
      fix r t' evs assume b: "reclaim env maxWaitMs t = Some (r, t', evs)"
      show "count_list evs ResumeCall = 1 \<and> \<not> pauseRequested t'"
      proof (cases "maxWaitMs = 0 \<and> \<not> ?paused")
        case True
        have "reclaimTask env maxWaitMs t = None"
          by (subst eq) (use True in simp)
        with a b show ?thesis by (simp add: reclaim_def)
      next
        case False
        then have e2: "reclaimTask env maxWaitMs t = Some (r1, t1, evs1)" by (simp add: eq)
        from g(2,3) c0 have k: "count_list evs1 ResumeCall = 1" "\<not> pauseRequested t1" by simp_all
        from a b e2 k show ?thesis
          by (cases r1) (auto simp: reclaim_def)
      qed
    qed
    from q1 q2 q3 show "(reclaim env maxWaitMs t = None \<longleftrightarrow> reclaimTask env maxWaitMs t = None)
        \<and> (\<forall>e t' evs. reclaimTask env maxWaitMs t = Some (Inl e, t', evs) \<longrightarrow>
               reclaim env maxWaitMs t = Some (Inl e, t', evs))
        \<and> (\<forall>r t' evs. reclaim env maxWaitMs t = Some (r, t', evs) \<longrightarrow>
               count_list evs ResumeCall = 1 \<and> \<not> pauseRequested t')"
      by blast
  qed
  show ?thesis
    by (rule conjI [OF p1 conjI [OF p2 conjI [OF p3 conjI [OF p4 p5]]]])
qed


lemma exampleEnv_sel:
  "taskAlive exampleEnv" "poolNameMatches exampleEnv" "waitEnds exampleEnv = TimedOut"
  "duringWait exampleEnv = (\<lambda>t. t)" "isCancelled exampleEnv = (\<lambda>t. False)"
  "poolReclaim exampleEnv = Inl ''out of memory''"
  by (simp_all add: exampleEnv_def)

text \<open>
  The statement on the example task, with a time limit of 50 ms: when no thread runs,
  the task is paused at once, the reclaim of the pool tree throws, and the task is left
  failed and resumed; when a thread runs and does not leave in time, the wait fails,
  and the task is resumed.
\<close>

theorem reclaim_resumes_once_witness:
  "taskAlive exampleEnv \<and> poolNameMatches exampleEnv
   \<and> poolReclaim exampleEnv = Inl ''out of memory''
   \<and> numThreads exampleTask = 0
   \<and> (\<exists>e t' evs. reclaim exampleEnv 50 exampleTask = Some (Inl e, t', evs)
         \<and> count_list evs ResumeCall = 1 \<and> pauseRequested t' = False
         \<and> taskState t' = kFailed \<and> exception t' = Some ''out of memory'')
   \<and> waitEnds exampleEnv = TimedOut
   \<and> (\<exists>t' evs. reclaim exampleEnv 50 (exampleTask\<lparr>numThreads := 1\<rparr>) =
           Some (Inl (VeloxRuntimeError ''Memory reclaim failed to wait for task to pause''),
                 t', evs)
         \<and> count_list evs ResumeCall = 1 \<and> pauseRequested t' = False)"
proof -
  let ?b = "exampleTask\<lparr>numThreads := 1\<rparr>"
  note tha = reclaim_resumes_once [of exampleEnv 50 exampleTask "''out of memory''"]
  note thb = reclaim_resumes_once [of exampleEnv 50 ?b "''out of memory''"]
  have t2: "isRunningLocked (duringWait exampleEnv (fst (snd (requestPause exampleTask))))"
    "exception (duringWait exampleEnv (fst (snd (requestPause exampleTask)))) = None"
    by (simp_all add: exampleEnv_sel requestPause_result isRunningLocked_def exampleTask_sel)
  have ha: "(numThreads exampleTask = 0 \<or> waitEnds exampleEnv = Satisfied)
        \<and> \<not> isCancelled exampleEnv (duringWait exampleEnv (fst (snd (requestPause exampleTask))))
        \<and> poolReclaim exampleEnv = Inl ''out of memory''"
    by (simp add: exampleEnv_sel exampleTask_sel)
  from tha [THEN conjunct2, THEN conjunct2, THEN conjunct2, THEN conjunct1, THEN mp, OF ha] t2
  obtain e ta evsa where a: "reclaimTask exampleEnv 50 exampleTask = Some (Inl e, ta, evsa)"
    and fa: "taskState ta = kFailed" "exception ta = Some ''out of memory''"
    by blast
  from tha [THEN conjunct1] a have ca: "count_list evsa ResumeCall = 1" "pauseRequested ta = False"
    by auto
  from tha [THEN conjunct2, THEN conjunct2, THEN conjunct2, THEN conjunct2] a
  have ra: "reclaim exampleEnv 50 exampleTask = Some (Inl e, ta, evsa)"
    by (simp add: exampleEnv_sel)
  have A: "\<exists>e t' evs. reclaim exampleEnv 50 exampleTask = Some (Inl e, t', evs)
         \<and> count_list evs ResumeCall = 1 \<and> pauseRequested t' = False
         \<and> taskState t' = kFailed \<and> exception t' = Some ''out of memory''"
    using ra fa ca by blast
  have hb: "(50::nat) \<noteq> 0 \<and> numThreads ?b \<noteq> 0 \<and> waitEnds exampleEnv \<noteq> Satisfied"
    by (simp add: exampleEnv_sel)
  from thb [THEN conjunct2, THEN conjunct2, THEN conjunct1, THEN mp, OF hb]
  obtain tb evsb where b: "reclaimTask exampleEnv 50 ?b =
      Some (Inl (VeloxRuntimeError ''Memory reclaim failed to wait for task to pause''), tb, evsb)"
    by blast
  from thb [THEN conjunct1] b have cb: "count_list evsb ResumeCall = 1" "pauseRequested tb = False"
    by auto
  from thb [THEN conjunct2, THEN conjunct2, THEN conjunct2, THEN conjunct2] b
  have rb: "reclaim exampleEnv 50 ?b =
      Some (Inl (VeloxRuntimeError ''Memory reclaim failed to wait for task to pause''), tb, evsb)"
    by (simp add: exampleEnv_sel)
  have B: "\<exists>t' evs. reclaim exampleEnv 50 ?b =
           Some (Inl (VeloxRuntimeError ''Memory reclaim failed to wait for task to pause''),
                 t', evs)
         \<and> count_list evs ResumeCall = 1 \<and> pauseRequested t' = False"
    using rb cb by blast
  show ?thesis
    using exampleEnv_sel(1,2,3,6) exampleTask_sel(14) A B
    by (intro conjI)
qed

end
